theory Spec2Isabelle
  imports Main "HOL-Library.Word"
begin

unbundle bit_operations_syntax

section \<open>The TWINE block cipher of \<^verbatim>\<open>twine.go\<close>\<close>

text \<open>
  A shallow embedding of the Go package \<^verbatim>\<open>twine\<close>. A Go \<^verbatim>\<open>byte\<close> is an
  8-bit word; slices and arrays are lists; a mutated array is passed through the
  computation and returned. Loop counters and indices are natural numbers: every
  counter of the source starts at a non-negative constant and stays non-negative.

  Go checks every index at run time and panics when it is out of range. The panic is a
  value of the model: a computation returns \<open>Inl\<close> of the panic or \<open>Inr\<close> of its
  result. Every access whose index is a variable goes through the checked \<open>at\<close> and
  \<open>store\<close>. An access to a fixed-size array (\<^verbatim>\<open>[20]byte\<close>, \<^verbatim>\<open>[32]byte\<close>) at a
  constant index is checked by the Go compiler and is written with \<open>!\<close> and list
  update. A panic ends the call; the model does not keep what a panicking call had
  already written to its destination.
\<close>

subsection \<open>Run-time checked indexing\<close>

type_synonym byte = "8 word"

datatype go_panic = IndexOutOfRange nat nat

type_synonym 'a res = "go_panic + 'a"

definition seq :: "'a res \<Rightarrow> ('a \<Rightarrow> 'b res) \<Rightarrow> 'b res" where
  "seq m f = (case m of Inl e \<Rightarrow> Inl e | Inr v \<Rightarrow> f v)"

definition at :: "'a list \<Rightarrow> nat \<Rightarrow> 'a res" where
  "at xs i = (if i < length xs then Inr (xs ! i) else Inl (IndexOutOfRange i (length xs)))"

definition store :: "'a list \<Rightarrow> nat \<Rightarrow> 'a \<Rightarrow> 'a list res" where
  "store xs i v = (if i < length xs then Inr (xs[i := v]) else Inl (IndexOutOfRange i (length xs)))"

text \<open>\<^verbatim>\<open>for i := lo; i < hi; i++ { body }\<close> over a state \<open>s\<close>.\<close>

function for_up :: "nat \<Rightarrow> nat \<Rightarrow> (nat \<Rightarrow> 's \<Rightarrow> 's res) \<Rightarrow> 's \<Rightarrow> 's res" where
  "for_up i hi body s =
     (if i < hi
      then (case body i s of Inl e \<Rightarrow> Inl e | Inr s' \<Rightarrow> for_up (i + 1) hi body s')
      else Inr s)"
  by pat_completeness auto
termination
  by (relation "measure (\<lambda>(i, hi, body, s). hi - i)") auto

text \<open>\<^verbatim>\<open>for i := hi; i >= lo; i-- { body }\<close> with a positive lower bound \<open>lo\<close>
  (the only downward loops of the source run from 36 to 2). For \<open>lo = 0\<close> Go's
  counter would reach \<open>-1\<close> and the loop would stop; the model stops there too.\<close>

function for_down :: "nat \<Rightarrow> nat \<Rightarrow> (nat \<Rightarrow> 's \<Rightarrow> 's res) \<Rightarrow> 's \<Rightarrow> 's res" where
  "for_down i lo body s =
     (if i \<ge> lo
      then (case body i s of Inl e \<Rightarrow> Inl e
            | Inr s' \<Rightarrow> if i = 0 then Inr s' else for_down (i - 1) lo body s')
      else Inr s)"
  by pat_completeness auto
termination
  by (relation "measure (\<lambda>(i, lo, body, s). i)") auto

subsection \<open>The constant tables\<close>

definition sbox :: "byte list" where
  "sbox = [0x0C, 0x00, 0x0F, 0x0A, 0x02, 0x0B, 0x09, 0x05,
           0x08, 0x03, 0x0D, 0x07, 0x01, 0x0E, 0x06, 0x04]"

definition shuf :: "nat list" where
  "shuf = [5, 0, 1, 4, 7, 12, 3, 8, 13, 6, 9, 2, 15, 10, 11, 14]"

definition shufinv :: "nat list" where
  "shufinv = [1, 2, 11, 6, 3, 0, 9, 4, 7, 10, 13, 14, 5, 8, 15, 12]"

definition roundconst :: "byte list" where
  "roundconst = [0x00,
     0x01, 0x02, 0x04, 0x08, 0x10, 0x20, 0x03, 0x06, 0x0c, 0x18, 0x30, 0x23,
     0x05, 0x0a, 0x14, 0x28, 0x13, 0x26,
     0x0f, 0x1e, 0x3c, 0x3b, 0x35, 0x29, 0x11, 0x22, 0x07, 0x0e, 0x1c, 0x38,
     0x33, 0x25, 0x09, 0x12, 0x24, 0x0b]"

subsection \<open>The cipher instance\<close>

text \<open>\<^verbatim>\<open>type twineCipher struct { rk [37][8]byte }\<close>; \<open>zero_cipher\<close> is the value of
  \<^verbatim>\<open>&twineCipher{}\<close>.\<close>

record twineCipher =
  rk :: "byte list list"

definition zero_cipher :: twineCipher where
  "zero_cipher = \<lparr>rk = replicate 37 (replicate 8 0)\<rparr>"

text \<open>\<^verbatim>\<open>t.rk[i][j] = v\<close> and \<^verbatim>\<open>t.rk[i][j]\<close>.\<close>

definition set_rk :: "twineCipher \<Rightarrow> nat \<Rightarrow> nat \<Rightarrow> byte \<Rightarrow> twineCipher res" where
  "set_rk t i j v =
     seq (at (rk t) i) (\<lambda>row.
     seq (store row j v) (\<lambda>row'.
     seq (store (rk t) i row') (\<lambda>rows.
     Inr (t\<lparr>rk := rows\<rparr>))))"

definition get_rk :: "twineCipher \<Rightarrow> nat \<Rightarrow> nat \<Rightarrow> byte res" where
  "get_rk t i j = seq (at (rk t) i) (\<lambda>row. at row j)"

subsection \<open>Block transforms\<close>

text \<open>The unpacking loop, the same in \<^verbatim>\<open>Encrypt\<close>, \<^verbatim>\<open>Decrypt\<close> and both key
  expansions: \<^verbatim>\<open>for i := 0; i < len(src); i++ { x[2*i] = src[i] >> 4; x[2*i+1] = src[i] & 0x0f }\<close>
  into a zeroed array of \<open>n\<close> bytes.\<close>

definition unpack :: "nat \<Rightarrow> byte list \<Rightarrow> byte list res" where
  "unpack n src =
     for_up 0 (length src) (\<lambda>i x.
       seq (at src i) (\<lambda>b.
       seq (store x (2 * i) (drop_bit 4 b)) (\<lambda>x.
       seq (at src i) (\<lambda>b.
       store x (2 * i + 1) (b AND 0x0f)))))
     (replicate n 0)"

text \<open>\<^verbatim>\<open>for j := 0; j < 8; j++ { x[2*j+1] ^= sbox[x[2*j]^t.rk[i][j]] }\<close>\<close>

definition feistel :: "twineCipher \<Rightarrow> nat \<Rightarrow> byte list \<Rightarrow> byte list res" where
  "feistel t i x =
     for_up 0 8 (\<lambda>j x.
       seq (at x (2 * j)) (\<lambda>a.
       seq (get_rk t i j) (\<lambda>k.
       seq (at sbox (unat (a XOR k))) (\<lambda>s.
       seq (at x (2 * j + 1)) (\<lambda>b.
       store x (2 * j + 1) (b XOR s))))))
     x"

text \<open>\<^verbatim>\<open>var xnext [16]byte; for h := 0; h < 16; h++ { xnext[tbl[h]] = x[h] }\<close>
  with \<open>tbl\<close> one of \<open>shuf\<close> and \<open>shufinv\<close>.\<close>

definition permute :: "nat list \<Rightarrow> byte list \<Rightarrow> byte list res" where
  "permute tbl x =
     for_up 0 16 (\<lambda>h xnext.
       seq (at tbl h) (\<lambda>d.
       seq (at x h) (\<lambda>v.
       store xnext d v)))
     (replicate 16 0)"

text \<open>\<^verbatim>\<open>for i := 0; i < 8; i++ { dst[i] = x[2*i]<<4 | x[2*i+1] }\<close>\<close>

definition pack :: "byte list \<Rightarrow> byte list \<Rightarrow> byte list res" where
  "pack dst x =
     for_up 0 8 (\<lambda>i dst.
       seq (at x (2 * i)) (\<lambda>hi.
       seq (at x (2 * i + 1)) (\<lambda>lo.
       store dst i (push_bit 4 hi OR lo))))
     dst"

text \<open>\<open>Encrypt t dst src\<close> returns the destination slice after the call.\<close>

definition Encrypt :: "twineCipher \<Rightarrow> byte list \<Rightarrow> byte list \<Rightarrow> byte list res" where
  "Encrypt t dst src =
     seq (unpack 16 src) (\<lambda>x.
     seq (for_up 1 36 (\<lambda>i x. seq (feistel t i x) (permute shuf)) x) (\<lambda>x.
     seq (feistel t 36 x) (\<lambda>x.
     pack dst x)))"

definition Decrypt :: "twineCipher \<Rightarrow> byte list \<Rightarrow> byte list \<Rightarrow> byte list res" where
  "Decrypt t dst src =
     seq (unpack 16 src) (\<lambda>x.
     seq (for_down 36 2 (\<lambda>i x. seq (feistel t i x) (permute shufinv)) x) (\<lambda>x.
     seq (feistel t 1 x) (\<lambda>x.
     pack dst x)))"

definition BlockSize :: "twineCipher \<Rightarrow> int" where
  "BlockSize t = 8"

subsection \<open>Key expansion\<close>

text \<open>The eight assignments \<^verbatim>\<open>t.rk[i][0] = wk[p0]; ...; t.rk[i][7] = wk[p7]\<close>.\<close>

definition tap :: "nat list \<Rightarrow> twineCipher \<Rightarrow> nat \<Rightarrow> byte list \<Rightarrow> twineCipher res" where
  "tap ps t i wk =
     seq (set_rk t i 0 (wk ! (ps ! 0))) (\<lambda>t.
     seq (set_rk t i 1 (wk ! (ps ! 1))) (\<lambda>t.
     seq (set_rk t i 2 (wk ! (ps ! 2))) (\<lambda>t.
     seq (set_rk t i 3 (wk ! (ps ! 3))) (\<lambda>t.
     seq (set_rk t i 4 (wk ! (ps ! 4))) (\<lambda>t.
     seq (set_rk t i 5 (wk ! (ps ! 5))) (\<lambda>t.
     seq (set_rk t i 6 (wk ! (ps ! 6))) (\<lambda>t.
     set_rk t i 7 (wk ! (ps ! 7)))))))))"

definition taps80 :: "nat list" where
  "taps80 = [1, 3, 4, 6, 13, 14, 15, 16]"

definition taps128 :: "nat list" where
  "taps128 = [2, 3, 12, 15, 17, 18, 28, 31]"

text \<open>\<^verbatim>\<open>for j := 0; j < n; j++ { fourj := j * 4; wk[fourj] = wk[fourj+4]; ... wk[fourj+3] = wk[fourj+7] }\<close>\<close>

definition shift_left :: "nat \<Rightarrow> byte list \<Rightarrow> byte list res" where
  "shift_left n wk =
     for_up 0 n (\<lambda>j wk.
       let fourj = j * 4 in
       seq (at wk (fourj + 4)) (\<lambda>v. seq (store wk fourj v) (\<lambda>wk.
       seq (at wk (fourj + 5)) (\<lambda>v. seq (store wk (fourj + 1) v) (\<lambda>wk.
       seq (at wk (fourj + 6)) (\<lambda>v. seq (store wk (fourj + 2) v) (\<lambda>wk.
       seq (at wk (fourj + 7)) (\<lambda>v. store wk (fourj + 3) v))))))))
     wk"

text \<open>One iteration of the loop of \<^verbatim>\<open>expandKeys80\<close> after the tap: the two S-box
  steps, the round constant, and the rotation.\<close>

definition update80 :: "nat \<Rightarrow> byte list \<Rightarrow> byte list res" where
  "update80 i wk =
     seq (at sbox (unat (wk ! 0))) (\<lambda>s.
     let wk = wk[1 := wk ! 1 XOR s] in
     seq (at sbox (unat (wk ! 16))) (\<lambda>s.
     let wk = wk[4 := wk ! 4 XOR s] in
     seq (at roundconst i) (\<lambda>con.
     let wk = wk[7 := wk ! 7 XOR drop_bit 3 con] in
     let wk = wk[19 := wk ! 19 XOR (con AND 7)] in
     let tmp0 = wk ! 0; tmp1 = wk ! 1; tmp2 = wk ! 2; tmp3 = wk ! 3 in
     seq (shift_left 4 wk) (\<lambda>wk.
     let wk = wk[16 := tmp1] in
     let wk = wk[17 := tmp2] in
     let wk = wk[18 := tmp3] in
     let wk = wk[19 := tmp0] in
     Inr wk))))"

text \<open>The body of the loop \<^verbatim>\<open>for i := 1; i <= 35; i++\<close> of \<^verbatim>\<open>expandKeys80\<close>, on the
  pair of the instance and the working register.\<close>

definition round80 :: "nat \<Rightarrow> twineCipher \<times> byte list \<Rightarrow> (twineCipher \<times> byte list) res" where
  "round80 i s =
     (case s of (t, wk) \<Rightarrow>
        seq (tap taps80 t i wk) (\<lambda>t.
        seq (update80 i wk) (\<lambda>wk.
        Inr (t, wk))))"

definition expandKeys80 :: "twineCipher \<Rightarrow> byte list \<Rightarrow> twineCipher res" where
  "expandKeys80 t key =
     seq (unpack 20 key) (\<lambda>wk.
     seq (for_up 1 36 round80 (t, wk)) (\<lambda>(t, wk).
     tap taps80 t 36 wk))"

definition update128 :: "nat \<Rightarrow> byte list \<Rightarrow> byte list res" where
  "update128 i wk =
     seq (at sbox (unat (wk ! 0))) (\<lambda>s.
     let wk = wk[1 := wk ! 1 XOR s] in
     seq (at sbox (unat (wk ! 16))) (\<lambda>s.
     let wk = wk[4 := wk ! 4 XOR s] in
     seq (at sbox (unat (wk ! 30))) (\<lambda>s.
     let wk = wk[23 := wk ! 23 XOR s] in
     seq (at roundconst i) (\<lambda>con.
     let wk = wk[7 := wk ! 7 XOR drop_bit 3 con] in
     let wk = wk[19 := wk ! 19 XOR (con AND 7)] in
     let tmp0 = wk ! 0; tmp1 = wk ! 1; tmp2 = wk ! 2; tmp3 = wk ! 3 in
     seq (shift_left 7 wk) (\<lambda>wk.
     let wk = wk[28 := tmp1] in
     let wk = wk[29 := tmp2] in
     let wk = wk[30 := tmp3] in
     let wk = wk[31 := tmp0] in
     Inr wk)))))"

definition round128 :: "nat \<Rightarrow> twineCipher \<times> byte list \<Rightarrow> (twineCipher \<times> byte list) res" where
  "round128 i s =
     (case s of (t, wk) \<Rightarrow>
        seq (tap taps128 t i wk) (\<lambda>t.
        seq (update128 i wk) (\<lambda>wk.
        Inr (t, wk))))"

definition expandKeys128 :: "twineCipher \<Rightarrow> byte list \<Rightarrow> twineCipher res" where
  "expandKeys128 t key =
     seq (unpack 32 key) (\<lambda>wk.
     seq (for_up 1 36 round128 (t, wk)) (\<lambda>(t, wk).
     tap taps128 t 36 wk))"

subsection \<open>Construction\<close>

text \<open>\<^verbatim>\<open>type KeySizeError int\<close> with its method \<^verbatim>\<open>Error\<close>. \<open>Itoa\<close> is
  \<^verbatim>\<open>strconv.Itoa\<close> of the Go standard library: the decimal digits of the integer,
  after a minus sign when it is negative.\<close>

datatype KeySizeError = KeySizeError int

fun digits :: "nat \<Rightarrow> string" where
  "digits n = (if n < 10 then [char_of (48 + n)] else digits (n div 10) @ [char_of (48 + n mod 10)])"

definition Itoa :: "int \<Rightarrow> string" where
  "Itoa k = (if k < 0 then CHR ''-'' # digits (nat (- k)) else digits (nat k))"

fun Error :: "KeySizeError \<Rightarrow> string" where
  "Error (KeySizeError k) = ''twine: invalid key size '' @ Itoa k"

text \<open>\<^verbatim>\<open>New\<close> returns \<^verbatim>\<open>(nil, KeySizeError(l))\<close> or \<^verbatim>\<open>(tw, nil)\<close>: the inner sum, \<open>Inl\<close>
  the error. The outer result is the panic that a key expansion could raise.\<close>

definition New :: "byte list \<Rightarrow> (KeySizeError + twineCipher) res" where
  "New key =
     (let l = length key in
      if l \<noteq> 10 \<and> l \<noteq> 16 then Inr (Inl (KeySizeError (int l)))
      else
        let tw = zero_cipher in
        seq (if l = 10 then expandKeys80 tw key
             else if l = 16 then expandKeys128 tw key
             else Inr tw) (\<lambda>tw.
        Inr (Inr tw)))"

section \<open>The specification's description of the cipher\<close>

text \<open>
  The definitions of this section follow the words of the specification, not the
  code: they are the pure functions on nibble blocks that the code is compared with.
\<close>

definition nibble :: "byte \<Rightarrow> bool" where
  "nibble w \<longleftrightarrow> w < 16"

definition nibbles :: "byte list \<Rightarrow> bool" where
  "nibbles xs \<longleftrightarrow> list_all nibble xs"

text \<open>The shape \<^verbatim>\<open>[37][8]byte\<close> of the round-key array, and a schedule whose
  entries are all nibbles.\<close>

definition rk_shape :: "byte list list \<Rightarrow> bool" where
  "rk_shape rows \<longleftrightarrow> length rows = 37 \<and> list_all (\<lambda>row. length row = 8) rows"

definition valid_rk :: "byte list list \<Rightarrow> bool" where
  "valid_rk rows \<longleftrightarrow> length rows = 37 \<and> list_all (\<lambda>row. length row = 8 \<and> nibbles row) rows"

text \<open>Nibble \<open>2i\<close> is the high nibble of byte \<open>i\<close>, nibble \<open>2i+1\<close> the low nibble.\<close>

definition spec_unpack :: "byte list \<Rightarrow> byte list" where
  "spec_unpack src = concat (map (\<lambda>b. [drop_bit 4 b, b AND 0x0f]) src)"

text \<open>High nibble of byte \<open>k\<close> from \<open>X[2k]\<close>, low nibble from \<open>X[2k+1]\<close>.\<close>

definition spec_pack :: "byte list \<Rightarrow> byte list" where
  "spec_pack X = map (\<lambda>k. push_bit 4 (X ! (2 * k)) OR X ! (2 * k + 1)) [0..<8]"

text \<open>Feistel step: for \<open>j\<close> in \<open>0..7\<close>, \<open>X[2j+1] ^= S[X[2j] ^ RK[i][j]]\<close>; the
  even-indexed nibbles are kept.\<close>

definition spec_feistel :: "byte list \<Rightarrow> byte list \<Rightarrow> byte list" where
  "spec_feistel row X =
     map (\<lambda>n. if odd n then X ! n XOR sbox ! unat (X ! (n - 1) XOR row ! (n div 2)) else X ! n)
       [0..<16]"

text \<open>Permutation: a new block \<open>Y\<close> with \<open>Y[tbl[h]] = X[h]\<close> for all \<open>h\<close> in \<open>0..15\<close>.\<close>

definition spec_permute :: "nat list \<Rightarrow> byte list \<Rightarrow> byte list" where
  "spec_permute tbl X = fold (\<lambda>h Y. Y[tbl ! h := X ! h]) [0..<16] (replicate 16 0)"

text \<open>\<open>n\<close> rounds of encryption with the round keys \<open>1..n\<close>: Feistel step and
  permutation for the rounds before the last, the Feistel step only for round \<open>n\<close>. And
  \<open>n\<close> rounds of decryption, with the round keys \<open>n\<close> down to \<open>1\<close>.\<close>

definition enc_rounds :: "nat \<Rightarrow> byte list list \<Rightarrow> byte list \<Rightarrow> byte list" where
  "enc_rounds n RK X =
     spec_feistel (RK ! n) (fold (\<lambda>i X. spec_permute shuf (spec_feistel (RK ! i) X)) [1..<n] X)"

definition dec_rounds :: "nat \<Rightarrow> byte list list \<Rightarrow> byte list \<Rightarrow> byte list" where
  "dec_rounds n RK X =
     spec_feistel (RK ! 1)
       (fold (\<lambda>i X. spec_permute shufinv (spec_feistel (RK ! i) X)) (rev [2..<Suc n]) X)"

definition spec_encrypt :: "byte list list \<Rightarrow> byte list \<Rightarrow> byte list" where
  "spec_encrypt RK src = spec_pack (enc_rounds 36 RK (spec_unpack src))"

definition spec_decrypt :: "byte list list \<Rightarrow> byte list \<Rightarrow> byte list" where
  "spec_decrypt RK src = spec_pack (dec_rounds 36 RK (spec_unpack src))"

text \<open>The 80-bit key schedule: the update of the working register in round \<open>i\<close>
  (non-linear mix, round constant, rotation left by four nibbles with
  \<open>WK[16] = t1, WK[17] = t2, WK[18] = t3, WK[19] = t0\<close>), the register before round
  \<open>i\<close>, and the round key tapped from it.\<close>

definition spec_update80 :: "nat \<Rightarrow> byte list \<Rightarrow> byte list" where
  "spec_update80 i WK =
     (let WK = WK[1 := WK ! 1 XOR sbox ! unat (WK ! 0)];
          WK = WK[4 := WK ! 4 XOR sbox ! unat (WK ! 16)];
          c = roundconst ! i;
          WK = WK[7 := WK ! 7 XOR drop_bit 3 c];
          WK = WK[19 := WK ! 19 XOR (c AND 7)]
      in take 16 (drop 4 WK) @ [WK ! 1, WK ! 2, WK ! 3, WK ! 0])"

definition spec_wk80 :: "byte list \<Rightarrow> nat \<Rightarrow> byte list" where
  "spec_wk80 key i = fold spec_update80 [1..<i] (spec_unpack key)"

definition spec_rk80 :: "byte list \<Rightarrow> nat \<Rightarrow> byte list" where
  "spec_rk80 key i = map (\<lambda>p. spec_wk80 key i ! p) [1, 3, 4, 6, 13, 14, 15, 16]"

text \<open>The 128-bit key schedule, likewise.\<close>

definition spec_update128 :: "nat \<Rightarrow> byte list \<Rightarrow> byte list" where
  "spec_update128 i WK =
     (let WK = WK[1 := WK ! 1 XOR sbox ! unat (WK ! 0)];
          WK = WK[4 := WK ! 4 XOR sbox ! unat (WK ! 16)];
          WK = WK[23 := WK ! 23 XOR sbox ! unat (WK ! 30)];
          c = roundconst ! i;
          WK = WK[7 := WK ! 7 XOR drop_bit 3 c];
          WK = WK[19 := WK ! 19 XOR (c AND 7)]
      in take 28 (drop 4 WK) @ [WK ! 1, WK ! 2, WK ! 3, WK ! 0])"

definition spec_wk128 :: "byte list \<Rightarrow> nat \<Rightarrow> byte list" where
  "spec_wk128 key i = fold spec_update128 [1..<i] (spec_unpack key)"

definition spec_rk128 :: "byte list \<Rightarrow> nat \<Rightarrow> byte list" where
  "spec_rk128 key i = map (\<lambda>p. spec_wk128 key i ! p) [2, 3, 12, 15, 17, 18, 28, 31]"

text \<open>The value of a string of decimal digits.\<close>

definition decimal_value :: "string \<Rightarrow> nat" where
  "decimal_value ds = foldl (\<lambda>a d. 10 * a + (of_char d - 48)) 0 ds"

section \<open>The reference vectors\<close>

text \<open>The two known-answer vectors of the TWINE specification, and the round-key
  schedules that the two keys expand to.\<close>

definition kat_key80 :: "byte list" where
  "kat_key80 = [0x00, 0x11, 0x22, 0x33, 0x44, 0x55, 0x66, 0x77, 0x88, 0x99]"

definition kat_key128 :: "byte list" where
  "kat_key128 = [0x00, 0x11, 0x22, 0x33, 0x44, 0x55, 0x66, 0x77,
                 0x88, 0x99, 0xAA, 0xBB, 0xCC, 0xDD, 0xEE, 0xFF]"

definition kat_plain :: "byte list" where
  "kat_plain = [0x01, 0x23, 0x45, 0x67, 0x89, 0xAB, 0xCD, 0xEF]"

definition kat_cipher80 :: "byte list" where
  "kat_cipher80 = [0x7C, 0x1F, 0x0F, 0x80, 0xB1, 0xDF, 0x9C, 0x28]"

definition kat_cipher128 :: "byte list" where
  "kat_cipher128 = [0x97, 0x9F, 0xF9, 0xB3, 0x79, 0xB5, 0xA9, 0xB8]"

definition kat_rk80 :: "byte list list" where
  "kat_rk80 = [
     [0, 0, 0, 0, 0, 0, 0, 0], [0, 1, 2, 3, 6, 7, 7, 8], [2, 3, 4, 5, 8, 9, 8, 12],
     [4, 5, 6, 7, 1, 1, 2, 15], [6, 7, 8, 9, 3, 3, 14, 15], [8, 9, 12, 1, 5, 5, 5, 9],
     [1, 0, 15, 3, 7, 7, 2, 9], [3, 10, 15, 5, 9, 9, 12, 5], [5, 5, 9, 7, 1, 0, 12, 2],
     [7, 2, 9, 9, 3, 10, 10, 7], [9, 13, 5, 0, 5, 5, 0, 14], [1, 15, 2, 10, 7, 2, 6, 8],
     [3, 12, 7, 5, 9, 13, 12, 11], [5, 4, 14, 2, 0, 15, 0, 14], [7, 6, 8, 13, 10, 12, 15, 9],
     [9, 13, 11, 15, 5, 4, 2, 15], [0, 2, 14, 12, 2, 6, 12, 14], [10, 10, 9, 4, 13, 13, 11, 4],
     [5, 0, 15, 6, 15, 2, 12, 2], [2, 8, 14, 13, 12, 10, 14, 2], [13, 10, 4, 2, 4, 0, 12, 14],
     [15, 15, 2, 10, 6, 8, 6, 13], [12, 9, 2, 0, 13, 10, 5, 0], [4, 11, 14, 8, 2, 15, 1, 13],
     [6, 0, 13, 10, 10, 9, 9, 2], [13, 0, 0, 15, 0, 11, 15, 10], [2, 3, 13, 9, 8, 0, 1, 2],
     [10, 13, 2, 11, 10, 0, 0, 12], [0, 15, 10, 0, 15, 3, 10, 5], [8, 0, 2, 0, 9, 13, 4, 10],
     [10, 3, 12, 3, 11, 15, 7, 8], [15, 13, 5, 13, 0, 0, 1, 14], [9, 2, 10, 15, 0, 3, 12, 13],
     [11, 3, 8, 0, 3, 13, 1, 3], [0, 0, 14, 3, 13, 2, 2, 9], [0, 14, 13, 13, 15, 3, 6, 15],
     [3, 5, 3, 2, 0, 0, 6, 14]]"

definition kat_rk128 :: "byte list list" where
  "kat_rk128 = [
     [0, 0, 0, 0, 0, 0, 0, 0], [1, 1, 6, 7, 8, 9, 14, 15], [3, 3, 8, 8, 10, 11, 12, 0],
     [5, 5, 10, 13, 12, 13, 15, 10], [7, 7, 12, 9, 14, 15, 7, 9], [9, 9, 14, 5, 1, 1, 3, 7],
     [11, 15, 12, 11, 3, 3, 14, 14], [13, 13, 15, 15, 5, 5, 13, 11], [15, 5, 7, 9, 7, 7, 4, 8],
     [1, 11, 3, 5, 9, 9, 9, 11], [3, 14, 14, 4, 11, 15, 8, 6], [5, 10, 13, 0, 13, 13, 0, 9],
     [7, 3, 4, 15, 15, 5, 6, 9], [9, 0, 9, 14, 1, 11, 7, 1], [15, 0, 8, 14, 3, 14, 7, 13],
     [13, 14, 0, 1, 5, 10, 0, 5], [5, 12, 6, 1, 7, 3, 5, 8], [11, 11, 7, 13, 9, 0, 3, 0],
     [14, 3, 7, 8, 15, 0, 15, 13], [10, 5, 0, 2, 13, 14, 8, 5], [3, 12, 5, 8, 5, 12, 8, 10],
     [0, 11, 3, 12, 11, 11, 6, 12], [0, 5, 15, 2, 14, 3, 7, 13], [14, 15, 8, 7, 10, 5, 13, 4],
     [12, 10, 8, 8, 3, 12, 3, 13], [11, 7, 6, 6, 0, 11, 2, 11], [3, 5, 7, 8, 0, 5, 2, 6],
     [5, 12, 13, 11, 14, 15, 0, 13], [12, 6, 3, 15, 12, 10, 3, 6], [11, 9, 2, 6, 11, 7, 2, 12],
     [5, 8, 2, 3, 3, 5, 8, 8], [15, 8, 0, 4, 5, 12, 15, 2], [10, 0, 3, 6, 12, 6, 10, 15],
     [7, 7, 2, 1, 11, 9, 4, 8], [5, 5, 8, 1, 5, 8, 5, 13], [12, 4, 15, 12, 15, 8, 11, 8],
     [6, 5, 10, 14, 10, 0, 0, 7]]"

section \<open>Facts about the model\<close>

subsection \<open>Sequencing, indexing and loops\<close>

lemma seq_Inr [simp]: "seq (Inr v) f = f v"
  by (simp add: seq_def)

lemma seq_Inl [simp]: "seq (Inl e) f = Inl e"
  by (simp add: seq_def)

lemma at_ok: "i < length xs \<Longrightarrow> at xs i = Inr (xs ! i)"
  by (simp add: at_def)

lemma store_ok: "i < length xs \<Longrightarrow> store xs i v = Inr (xs[i := v])"
  by (simp add: store_def)

declare for_up.simps [simp del] for_down.simps [simp del]

lemma for_up_stop: "\<not> i < hi \<Longrightarrow> for_up i hi body s = Inr s"
  by (subst for_up.simps) simp

lemma for_up_step: "i < hi \<Longrightarrow> for_up i hi body s = seq (body i s) (for_up (i + 1) hi body)"
  by (subst for_up.simps) (simp add: seq_def split: sum.splits)

lemma for_up_split:
  "i \<le> m \<Longrightarrow> m \<le> hi \<Longrightarrow> for_up i hi body s = seq (for_up i m body s) (for_up m hi body)"
proof (induction i m body s rule: for_up.induct)
  case (1 i m body s)
  show ?case
  proof (cases "i < m")
    case True
    then have lt: "i < hi" using "1.prems" by simp
    show ?thesis
    proof (cases "body i s")
      case (Inl e)
      then show ?thesis using True lt by (simp add: for_up_step)
    next
      case (Inr s')
      then show ?thesis using True lt "1.IH" [OF True Inr] "1.prems" by (simp add: for_up_step)
    qed
  next
    case False
    then have "i = m" using "1.prems" by simp
    then show ?thesis by (simp add: for_up_stop)
  qed
qed

lemma for_up_snoc:
  "i \<le> n \<Longrightarrow> for_up i (Suc n) body s = seq (for_up i n body s) (body n)"
proof -
  assume "i \<le> n"
  then have "for_up i (Suc n) body s = seq (for_up i n body s) (for_up n (Suc n) body)"
    by (intro for_up_split) simp_all
  moreover have "for_up n (Suc n) body = body n"
  proof
    fix s'
    have "for_up n (Suc n) body s' = seq (body n s') (for_up (n + 1) (Suc n) body)"
      by (rule for_up_step) simp
    also have "\<dots> = body n s'"
      by (cases "body n s'") (simp_all add: for_up_stop)
    finally show "for_up n (Suc n) body s' = body n s'" .
  qed
  ultimately show ?thesis by simp
qed

lemma for_up_cong:
  "(\<And>j s. i \<le> j \<Longrightarrow> j < hi \<Longrightarrow> f j s = g j s) \<Longrightarrow> for_up i hi f s = for_up i hi g s"
proof (induction i hi f s rule: for_up.induct)
  case (1 i hi f s)
  show ?case
  proof (cases "i < hi")
    case True
    have eq: "f i s = g i s" using True "1.prems" by simp
    show ?thesis
    proof (cases "f i s")
      case (Inl e)
      then show ?thesis using True eq by (simp add: for_up_step)
    next
      case (Inr s')
      have "for_up (i + 1) hi f s' = for_up (i + 1) hi g s'"
        using "1.IH" [OF True Inr] "1.prems" by simp
      then show ?thesis using True Inr eq [symmetric] by (simp add: for_up_step)
    qed
  next
    case False
    then show ?thesis by (simp add: for_up_stop)
  qed
qed

lemma for_up_inv:
  assumes "I i s" and "i \<le> hi"
    and "\<And>j s. i \<le> j \<Longrightarrow> j < hi \<Longrightarrow> I j s \<Longrightarrow> \<exists>s'. body j s = Inr s' \<and> I (j + 1) s'"
  shows "\<exists>s'. for_up i hi body s = Inr s' \<and> I hi s'"
  using assms
proof (induction i hi body s rule: for_up.induct)
  case (1 i hi body s)
  show ?case
  proof (cases "i < hi")
    case True
    obtain s' where s': "body i s = Inr s'" "I (i + 1) s'"
      using "1.prems"(3) [of i s] True "1.prems"(1) by auto
    have "\<exists>s''. for_up (i + 1) hi body s' = Inr s'' \<and> I hi s''"
      using "1.IH" [OF True s'(1) s'(2)] True "1.prems"(3) by simp
    then show ?thesis using True s' by (simp add: for_up_step)
  next
    case False
    then have "i = hi" using "1.prems" by simp
    then show ?thesis using "1.prems" by (simp add: for_up_stop)
  qed
qed

subsection \<open>Nibbles\<close>

lemma nib_unat: "(a::byte) < 16 \<longleftrightarrow> unat a < 16"
  by (simp add: word_less_nat_alt)

lemma nib_iff: "(w :: byte) < 16 \<longleftrightarrow> take_bit 4 w = w"
proof -
  have "take_bit 4 w = w \<longleftrightarrow> unat (take_bit 4 w) = unat w"
    by (simp add: word_unat_eq_iff)
  also have "\<dots> \<longleftrightarrow> take_bit 4 (unat w) = unat w"
    by (simp add: unsigned_take_bit_eq)
  also have "\<dots> \<longleftrightarrow> unat w < 2 ^ 4"
    by (rule take_bit_nat_eq_self_iff)
  finally show ?thesis by (simp add: nib_unat)
qed

lemma nib_bit: "(w :: byte) < 16 \<longleftrightarrow> (\<forall>n. bit w n \<longrightarrow> n < 4)"
proof
  assume "w < 16"
  then have e: "take_bit 4 w = w" by (simp add: nib_iff)
  show "\<forall>n. bit w n \<longrightarrow> n < 4"
  proof (intro allI impI)
    fix n assume "bit w n"
    then have "bit (take_bit 4 w) n" by (simp add: e)
    then show "n < 4" by (simp add: bit_take_bit_iff)
  qed
next
  assume a: "\<forall>n. bit w n \<longrightarrow> n < 4"
  have "take_bit 4 w = w"
    by (rule bit_word_eqI) (use a in \<open>auto simp add: bit_take_bit_iff\<close>)
  then show "w < 16" by (simp add: nib_iff)
qed

lemma nib_xor: "(a::byte) < 16 \<Longrightarrow> b < 16 \<Longrightarrow> a XOR b < 16"
  by (simp add: nib_iff)

lemma nib_hi: "drop_bit 4 (b::byte) < 16"
  unfolding nib_bit by (auto simp add: bit_simps dest: bit_imp_le_length)

lemma nib_le: "(a :: byte) \<le> b \<Longrightarrow> b < 16 \<Longrightarrow> a < 16"
  by simp

lemma nib_lo: "(b::byte) AND 0x0f < 16"
  by (rule nib_le [OF word_and_le1]) simp

lemma nib_and7: "(b::byte) AND 7 < 16"
  by (rule nib_le [OF word_and_le1]) simp

lemma bit15: "bit (15 :: int) n \<longleftrightarrow> n < 4"
proof -
  have "(15 :: int) = mask 4" by (simp add: mask_eq_exp_minus_1)
  show ?thesis unfolding \<open>15 = mask 4\<close> by (auto simp add: bit_mask_iff)
qed

lemma byte_pack: "push_bit 4 (drop_bit 4 (b::byte)) OR (b AND 0x0f) = b"
  by (rule bit_word_eqI) (auto simp add: bit_simps bit15)

lemma nib_pack_lo: "(a::byte) < 16 \<Longrightarrow> b < 16 \<Longrightarrow> (push_bit 4 a OR b) AND 0x0f = b"
  unfolding nib_bit
  by (rule bit_word_eqI) (auto simp add: bit_simps bit15)

subsection \<open>Unpacking\<close>

lemma spec_unpack_snoc: "spec_unpack (src @ [b]) = spec_unpack src @ [drop_bit 4 b, b AND 0x0f]"
  by (simp add: spec_unpack_def)

lemma length_spec_unpack: "length (spec_unpack src) = 2 * length src"
  by (induction src) (simp_all add: spec_unpack_def)

lemma unpack_snoc:
  "unpack n (src @ [b]) =
     seq (unpack n src) (\<lambda>x.
     seq (store x (2 * length src) (drop_bit 4 b)) (\<lambda>x.
     store x (2 * length src + 1) (b AND 0x0f)))"
proof -
  let ?body = "\<lambda>src i x.
       seq (at src i) (\<lambda>b.
       seq (store x (2 * i) (drop_bit 4 b)) (\<lambda>x.
       seq (at src i) (\<lambda>b.
       store x (2 * i + 1) (b AND 0x0f))))"
  have "unpack n (src @ [b]) = for_up 0 (Suc (length src)) (?body (src @ [b])) (replicate n 0)"
    by (simp add: unpack_def)
  also have "\<dots> = seq (for_up 0 (length src) (?body (src @ [b])) (replicate n 0))
                      (?body (src @ [b]) (length src))"
    by (rule for_up_snoc) simp
  also have "for_up 0 (length src) (?body (src @ [b])) (replicate n 0) =
             for_up 0 (length src) (?body src) (replicate n 0)"
    by (rule for_up_cong) (simp add: at_def nth_append)
  also have "?body (src @ [b]) (length src) =
       (\<lambda>x. seq (store x (2 * length src) (drop_bit 4 b)) (\<lambda>x.
            store x (2 * length src + 1) (b AND 0x0f)))"
    by (simp add: at_def)
  finally show ?thesis by (simp add: unpack_def)
qed

lemma update_two_zeros:
  assumes "length A = k" "k + 2 \<le> n"
  shows "(A @ replicate (n - k) (0::byte))[k := a, Suc k := b] = (A @ [a, b]) @ replicate (n - (k + 2)) 0"
proof -
  have "replicate (n - k) (0::byte) = 0 # 0 # replicate (n - (k + 2)) 0"
    using assms(2)
    by (metis Suc_diff_le add_2_eq_Suc' diff_Suc_Suc replicate_Suc nat_le_linear not_less_eq_eq)
  then show ?thesis using assms(1) by (simp add: list_update_append)
qed

lemma unpack_ok:
  "2 * length src \<le> n \<Longrightarrow> unpack n src = Inr (spec_unpack src @ replicate (n - 2 * length src) 0)"
proof (induction src rule: rev_induct)
  case Nil
  then show ?case by (simp add: unpack_def for_up_stop spec_unpack_def)
next
  case (snoc b src)
  have le: "2 * length src + 2 \<le> n" using snoc.prems by simp
  have ih: "unpack n src = Inr (spec_unpack src @ replicate (n - 2 * length src) 0)"
    using snoc.IH le by simp
  let ?x = "spec_unpack src @ replicate (n - 2 * length src) 0"
  have len: "length ?x = n" using le by (simp add: length_spec_unpack)
  have upd: "?x[2 * length src := drop_bit 4 b, Suc (2 * length src) := b AND 0x0f] =
             (spec_unpack src @ [drop_bit 4 b, b AND 0x0f]) @ replicate (n - (2 * length src + 2)) 0"
    by (rule update_two_zeros) (use le in \<open>simp_all add: length_spec_unpack\<close>)
  show ?case
    using le len upd by (simp add: unpack_snoc ih store_ok spec_unpack_snoc)
qed

lemma unpack_exact: "n = 2 * length src \<Longrightarrow> unpack n src = Inr (spec_unpack src)"
  by (simp add: unpack_ok)

lemma unpack_panic:
  assumes "2 * m = n" "m < length src"
  shows "unpack n src = Inl (IndexOutOfRange n n)"
proof -
  let ?body = "\<lambda>src i x.
       seq (at src i) (\<lambda>b.
       seq (store x (2 * i) (drop_bit 4 b)) (\<lambda>x.
       seq (at src i) (\<lambda>b.
       store x (2 * i + 1) (b AND 0x0f))))"
  have "unpack n src = seq (for_up 0 m (?body src) (replicate n 0)) (for_up m (length src) (?body src))"
    unfolding unpack_def by (rule for_up_split) (use assms in simp_all)
  also have "for_up 0 m (?body src) (replicate n 0) = for_up 0 m (?body (take m src)) (replicate n 0)"
    by (rule for_up_cong) (use assms in \<open>simp add: at_def\<close>)
  also have "\<dots> = unpack n (take m src)"
    using assms by (simp add: unpack_def min_def)
  also have "\<dots> = Inr (spec_unpack (take m src))"
    by (rule unpack_exact) (use assms in \<open>simp add: min_def\<close>)
  finally have "unpack n src = for_up m (length src) (?body src) (spec_unpack (take m src))"
    by simp
  also have "\<dots> = Inl (IndexOutOfRange n n)"
    using assms by (simp add: for_up_step at_ok store_def length_spec_unpack min_def)
  finally show ?thesis .
qed

subsection \<open>Lists of a fixed length, the S-box, the Feistel step\<close>

lemma upt_0_16: "[0..<16] = [0, 1, 2, 3, 4, 5, 6, 7, 8, 9, 10, 11, 12, 13, 14, 15]"
  by code_simp

lemma upt_0_8: "[0..<8] = [0, 1, 2, 3, 4, 5, 6, 7]"
  by code_simp

lemma list4:
  "length xs = 4 + n \<Longrightarrow> \<exists>a b c d ys. xs = a # b # c # d # ys \<and> length ys = n"
  by (cases xs; cases "tl xs"; cases "tl (tl xs)"; cases "tl (tl (tl xs))") auto

lemma list8:
  assumes "length xs = 8"
  obtains a0 a1 a2 a3 a4 a5 a6 a7 where "xs = [a0, a1, a2, a3, a4, a5, a6, a7]"
proof -
  from list4 [of xs 4] assms obtain a0 a1 a2 a3 ys where 1: "xs = a0 # a1 # a2 # a3 # ys" "length ys = 4"
    by auto
  from list4 [of ys 0] 1 obtain a4 a5 a6 a7 where "ys = [a4, a5, a6, a7]"
    by auto
  with 1 that show thesis by simp
qed

lemma list16:
  assumes "length xs = 16"
  obtains a0 a1 a2 a3 a4 a5 a6 a7 a8 a9 a10 a11 a12 a13 a14 a15
  where "xs = [a0, a1, a2, a3, a4, a5, a6, a7, a8, a9, a10, a11, a12, a13, a14, a15]"
proof -
  from list4 [of xs 12] assms obtain a0 a1 a2 a3 ys where 1: "xs = a0 # a1 # a2 # a3 # ys" "length ys = 12"
    by auto
  from list4 [of ys 8] 1 obtain a4 a5 a6 a7 zs where 2: "ys = a4 # a5 # a6 # a7 # zs" "length zs = 8"
    by auto
  from 2 obtain b0 b1 b2 b3 b4 b5 b6 b7 where "zs = [b0, b1, b2, b3, b4, b5, b6, b7]"
    by (auto elim: list8)
  with 1 2 that show thesis by simp
qed

lemma length_sbox: "length sbox = 16"
  by (simp add: sbox_def)

lemma sbox_at: "(v::byte) < 16 \<Longrightarrow> at sbox (unat v) = Inr (sbox ! unat v)"
  by (simp add: at_def length_sbox nib_unat)

lemma sbox_nibble: "(v::byte) < 16 \<Longrightarrow> sbox ! unat v < 16"
proof -
  assume "(v::byte) < 16"
  then have "unat v < length sbox" by (simp add: length_sbox nib_unat)
  then have "sbox ! unat v \<in> set sbox" by (rule nth_mem)
  then show ?thesis by (auto simp add: sbox_def)
qed

lemma feistel_ok:
  assumes "length x = 16" "nibbles x" "i < length (rk t)" "length (rk t ! i) = 8" "nibbles (rk t ! i)"
  shows "feistel t i x = Inr (spec_feistel (rk t ! i) x)"
proof -
  from assms(1) obtain a0 a1 a2 a3 a4 a5 a6 a7 a8 a9 a10 a11 a12 a13 a14 a15
    where x: "x = [a0, a1, a2, a3, a4, a5, a6, a7, a8, a9, a10, a11, a12, a13, a14, a15]"
    by (rule list16)
  from assms(4) obtain k0 k1 k2 k3 k4 k5 k6 k7
    where k: "rk t ! i = [k0, k1, k2, k3, k4, k5, k6, k7]"
    by (rule list8)
  show ?thesis
    using assms(2,3,5) unfolding x k feistel_def spec_feistel_def upt_0_16
    by (simp add: for_up_step for_up_stop get_rk_def at_ok store_ok k sbox_at nib_xor nibbles_def nibble_def)
qed

subsection \<open>Permutation, packing and unpacking\<close>

lemma replicate_16: "replicate 16 (0::byte) = [0, 0, 0, 0, 0, 0, 0, 0, 0, 0, 0, 0, 0, 0, 0, 0]"
  by code_simp

lemma nib_drop_push: "(a::byte) < 16 \<Longrightarrow> drop_bit 4 (push_bit 4 a) = a"
  unfolding nib_bit by (rule bit_word_eqI) (auto simp add: bit_simps)

lemma nib_drop: "(b::byte) < 16 \<Longrightarrow> drop_bit 4 b = 0"
  unfolding nib_bit by (rule bit_word_eqI) (auto simp add: bit_simps)

lemma length_spec_feistel: "length (spec_feistel row x) = 16"
  by (simp add: spec_feistel_def)

lemma length_spec_permute: "length (spec_permute tbl x) = 16"
proof -
  have "length (fold (\<lambda>h Y. Y[tbl ! h := x ! h]) hs Y) = length Y" for hs Y
    by (induction hs arbitrary: Y) simp_all
  then show ?thesis by (simp add: spec_permute_def)
qed

lemma spec_feistel_involution:
  assumes "length x = 16"
  shows "spec_feistel row (spec_feistel row x) = x"
proof -
  from assms obtain a0 a1 a2 a3 a4 a5 a6 a7 a8 a9 a10 a11 a12 a13 a14 a15
    where x: "x = [a0, a1, a2, a3, a4, a5, a6, a7, a8, a9, a10, a11, a12, a13, a14, a15]"
    by (rule list16)
  show ?thesis
    unfolding x spec_feistel_def upt_0_16 by (simp add: xor.assoc)
qed

lemma nibbles_spec_feistel:
  assumes "length x = 16" "nibbles x" "length row = 8" "nibbles row"
  shows "nibbles (spec_feistel row x)"
proof -
  from assms(1) obtain a0 a1 a2 a3 a4 a5 a6 a7 a8 a9 a10 a11 a12 a13 a14 a15
    where x: "x = [a0, a1, a2, a3, a4, a5, a6, a7, a8, a9, a10, a11, a12, a13, a14, a15]"
    by (rule list16)
  from assms(3) obtain k0 k1 k2 k3 k4 k5 k6 k7
    where k: "row = [k0, k1, k2, k3, k4, k5, k6, k7]"
    by (rule list8)
  show ?thesis
    using assms(2,4) unfolding x k spec_feistel_def upt_0_16
    by (simp add: nibbles_def nibble_def nib_xor sbox_nibble)
qed

lemma spec_permute_shuf:
  "spec_permute shuf [a0, a1, a2, a3, a4, a5, a6, a7, a8, a9, a10, a11, a12, a13, a14, a15] =
     [a1, a2, a11, a6, a3, a0, a9, a4, a7, a10, a13, a14, a5, a8, a15, a12]"
  unfolding spec_permute_def upt_0_16 replicate_16 by (simp add: shuf_def)

lemma spec_permute_shufinv:
  "spec_permute shufinv [a0, a1, a2, a3, a4, a5, a6, a7, a8, a9, a10, a11, a12, a13, a14, a15] =
     [a5, a0, a1, a4, a7, a12, a3, a8, a13, a6, a9, a2, a15, a10, a11, a14]"
  unfolding spec_permute_def upt_0_16 replicate_16 by (simp add: shufinv_def)

lemma permute_shuf_ok:
  assumes "length x = 16"
  shows "permute shuf x = Inr (spec_permute shuf x)"
proof -
  from assms obtain a0 a1 a2 a3 a4 a5 a6 a7 a8 a9 a10 a11 a12 a13 a14 a15
    where x: "x = [a0, a1, a2, a3, a4, a5, a6, a7, a8, a9, a10, a11, a12, a13, a14, a15]"
    by (rule list16)
  show ?thesis
    unfolding x spec_permute_shuf permute_def replicate_16
    by (simp add: for_up_step for_up_stop at_def store_def shuf_def)
qed

lemma permute_shufinv_ok:
  assumes "length x = 16"
  shows "permute shufinv x = Inr (spec_permute shufinv x)"
proof -
  from assms obtain a0 a1 a2 a3 a4 a5 a6 a7 a8 a9 a10 a11 a12 a13 a14 a15
    where x: "x = [a0, a1, a2, a3, a4, a5, a6, a7, a8, a9, a10, a11, a12, a13, a14, a15]"
    by (rule list16)
  show ?thesis
    unfolding x spec_permute_shufinv permute_def replicate_16
    by (simp add: for_up_step for_up_stop at_def store_def shufinv_def)
qed

lemma shufinv_shuf:
  assumes "length x = 16"
  shows "spec_permute shufinv (spec_permute shuf x) = x"
proof -
  from assms obtain a0 a1 a2 a3 a4 a5 a6 a7 a8 a9 a10 a11 a12 a13 a14 a15
    where x: "x = [a0, a1, a2, a3, a4, a5, a6, a7, a8, a9, a10, a11, a12, a13, a14, a15]"
    by (rule list16)
  show ?thesis unfolding x by (simp only: spec_permute_shuf spec_permute_shufinv)
qed

lemma shuf_shufinv:
  assumes "length x = 16"
  shows "spec_permute shuf (spec_permute shufinv x) = x"
proof -
  from assms obtain a0 a1 a2 a3 a4 a5 a6 a7 a8 a9 a10 a11 a12 a13 a14 a15
    where x: "x = [a0, a1, a2, a3, a4, a5, a6, a7, a8, a9, a10, a11, a12, a13, a14, a15]"
    by (rule list16)
  show ?thesis unfolding x by (simp only: spec_permute_shuf spec_permute_shufinv)
qed

lemma nibbles_spec_permute:
  assumes "length x = 16" "nibbles x"
  shows "nibbles (spec_permute shuf x)" and "nibbles (spec_permute shufinv x)"
proof -
  from assms(1) obtain a0 a1 a2 a3 a4 a5 a6 a7 a8 a9 a10 a11 a12 a13 a14 a15
    where x: "x = [a0, a1, a2, a3, a4, a5, a6, a7, a8, a9, a10, a11, a12, a13, a14, a15]"
    by (rule list16)
  show "nibbles (spec_permute shuf x)"
    using assms(2) unfolding x spec_permute_shuf by (simp add: nibbles_def)
  show "nibbles (spec_permute shufinv x)"
    using assms(2) unfolding x spec_permute_shufinv by (simp add: nibbles_def)
qed

lemma length_spec_pack: "length (spec_pack x) = 8"
  by (simp add: spec_pack_def)

lemma pack_ok:
  assumes "length x = 16" "8 \<le> length dst"
  shows "pack dst x = Inr (spec_pack x @ drop 8 dst)"
proof -
  from assms(1) obtain a0 a1 a2 a3 a4 a5 a6 a7 a8 a9 a10 a11 a12 a13 a14 a15
    where x: "x = [a0, a1, a2, a3, a4, a5, a6, a7, a8, a9, a10, a11, a12, a13, a14, a15]"
    by (rule list16)
  from assms(2) have "length dst = 4 + (length dst - 4)" by simp
  from list4 [OF this] obtain d0 d1 d2 d3 ys
    where 1: "dst = d0 # d1 # d2 # d3 # ys" "length ys = length dst - 4" by auto
  from 1 assms(2) have "length ys = 4 + (length ys - 4)" by simp
  from list4 [OF this] obtain d4 d5 d6 d7 zs
    where 2: "ys = d4 # d5 # d6 # d7 # zs" by auto
  show ?thesis
    unfolding x 1 2 spec_pack_def upt_0_8
    by (simp add: pack_def for_up_step for_up_stop at_def store_def)
qed

lemma spec_pack_unpack:
  assumes "length src = 8"
  shows "spec_pack (spec_unpack src) = src"
proof -
  from assms obtain b0 b1 b2 b3 b4 b5 b6 b7 where s: "src = [b0, b1, b2, b3, b4, b5, b6, b7]"
    by (rule list8)
  show ?thesis unfolding s spec_pack_def spec_unpack_def upt_0_8
    by (simp add: byte_pack)
qed

lemma spec_unpack_pack:
  assumes "length x = 16" "nibbles x"
  shows "spec_unpack (spec_pack x) = x"
proof -
  from assms(1) obtain a0 a1 a2 a3 a4 a5 a6 a7 a8 a9 a10 a11 a12 a13 a14 a15
    where x: "x = [a0, a1, a2, a3, a4, a5, a6, a7, a8, a9, a10, a11, a12, a13, a14, a15]"
    by (rule list16)
  show ?thesis using assms(2) unfolding x spec_pack_def spec_unpack_def upt_0_8
    by (simp add: nib_drop_push nib_drop nib_pack_lo nibbles_def nibble_def)
qed

lemma nibbles_spec_unpack: "nibbles (spec_unpack src)"
  by (induction src) (simp_all add: spec_unpack_def nibbles_def nibble_def nib_hi nib_lo)

lemma nibbles_append: "nibbles (xs @ ys) \<longleftrightarrow> nibbles xs \<and> nibbles ys"
  by (simp add: nibbles_def)

lemma nibbles_zeros: "nibbles (replicate n 0)"
  by (simp add: nibbles_def nibble_def list_all_iff)

subsection \<open>The round loops and the block transforms\<close>

lemma for_up_fold:
  assumes "I s" "lo \<le> hi"
    and "\<And>j s. lo \<le> j \<Longrightarrow> j < hi \<Longrightarrow> I s \<Longrightarrow> body j s = Inr (f j s) \<and> I (f j s)"
  shows "for_up lo hi body s = Inr (fold f [lo..<hi] s) \<and> I (fold f [lo..<hi] s)"
  using assms(2,3)
proof (induction hi)
  case 0
  then show ?case using assms(1) by (simp add: for_up_stop)
next
  case (Suc hi)
  show ?case
  proof (cases "lo \<le> hi")
    case True
    have ih: "for_up lo hi body s = Inr (fold f [lo..<hi] s) \<and> I (fold f [lo..<hi] s)"
      using Suc.IH [OF True] Suc.prems(2) by simp
    have "body hi (fold f [lo..<hi] s) = Inr (f hi (fold f [lo..<hi] s)) \<and> I (f hi (fold f [lo..<hi] s))"
      using Suc.prems(2) [of hi] True ih by simp
    then show ?thesis using True ih by (simp add: for_up_snoc)
  next
    case False
    then have "lo = Suc hi" using Suc.prems(1) by simp
    then show ?thesis using assms(1) by (simp add: for_up_stop)
  qed
qed

lemma for_down_fold:
  assumes "I s" "0 < lo"
    and "\<And>j s. lo \<le> j \<Longrightarrow> j \<le> hi \<Longrightarrow> I s \<Longrightarrow> body j s = Inr (f j s) \<and> I (f j s)"
  shows "for_down hi lo body s = Inr (fold f (rev [lo..<Suc hi]) s)
         \<and> I (fold f (rev [lo..<Suc hi]) s)"
  using assms(1,3)
proof (induction hi arbitrary: s)
  case 0
  then show ?case using assms(2) by (subst for_down.simps) simp
next
  case (Suc hi)
  show ?case
  proof (cases "lo \<le> Suc hi")
    case True
    have b: "body (Suc hi) s = Inr (f (Suc hi) s)" and i: "I (f (Suc hi) s)"
      using Suc.prems(2) [of "Suc hi" s] True Suc.prems(1) by simp_all
    have ih: "for_down hi lo body (f (Suc hi) s) = Inr (fold f (rev [lo..<Suc hi]) (f (Suc hi) s))
         \<and> I (fold f (rev [lo..<Suc hi]) (f (Suc hi) s))"
      using Suc.IH [OF i] Suc.prems(2) by simp
    have "for_down (Suc hi) lo body s = for_down hi lo body (f (Suc hi) s)"
      using True b by (subst for_down.simps) simp
    then show ?thesis using ih True by simp
  next
    case False
    then show ?thesis using Suc.prems(1) by (subst for_down.simps) simp
  qed
qed

lemma valid_rk_row:
  "valid_rk rows \<Longrightarrow> i < 37 \<Longrightarrow> i < length rows \<and> length (rows ! i) = 8 \<and> nibbles (rows ! i)"
  by (simp add: valid_rk_def list_all_length)

lemma enc_rounds_Suc:
  "1 \<le> n \<Longrightarrow> enc_rounds (Suc n) RK x = spec_feistel (RK ! Suc n) (spec_permute shuf (enc_rounds n RK x))"
  by (simp add: enc_rounds_def)

lemma dec_rounds_Suc:
  "1 \<le> n \<Longrightarrow> dec_rounds (Suc n) RK y = dec_rounds n RK (spec_permute shufinv (spec_feistel (RK ! Suc n) y))"
  by (simp add: dec_rounds_def)

lemma length_enc_rounds: "length (enc_rounds n RK x) = 16"
  by (simp add: enc_rounds_def length_spec_feistel)

lemma length_dec_rounds: "length (dec_rounds n RK x) = 16"
  by (simp add: dec_rounds_def length_spec_feistel)

lemma dec_enc_rounds:
  "1 \<le> n \<Longrightarrow> length x = 16 \<Longrightarrow> dec_rounds n RK (enc_rounds n RK x) = x"
proof (induction n rule: nat_induct_at_least)
  case base
  then show ?case by (simp add: enc_rounds_def dec_rounds_def spec_feistel_involution)
next
  case (Suc n)
  then show ?case
    by (simp add: enc_rounds_Suc dec_rounds_Suc spec_feistel_involution shufinv_shuf
        length_spec_permute length_enc_rounds)
qed

lemma enc_dec_rounds:
  "1 \<le> n \<Longrightarrow> length y = 16 \<Longrightarrow> enc_rounds n RK (dec_rounds n RK y) = y"
proof (induction n arbitrary: y rule: nat_induct_at_least)
  case base
  then show ?case by (simp add: enc_rounds_def dec_rounds_def spec_feistel_involution)
next
  case (Suc n)
  then show ?case
    by (simp add: enc_rounds_Suc dec_rounds_Suc spec_feistel_involution shuf_shufinv
        length_spec_permute length_spec_feistel)
qed

lemma enc_loop:
  assumes "valid_rk (rk t)" "length x = 16" "nibbles x"
  shows "for_up 1 36 (\<lambda>i x. seq (feistel t i x) (permute shuf)) x =
           Inr (fold (\<lambda>i X. spec_permute shuf (spec_feistel (rk t ! i) X)) [1..<36] x)
         \<and> (length (fold (\<lambda>i X. spec_permute shuf (spec_feistel (rk t ! i) X)) [1..<36] x) = 16
            \<and> nibbles (fold (\<lambda>i X. spec_permute shuf (spec_feistel (rk t ! i) X)) [1..<36] x))"
proof (rule for_up_fold [where I = "\<lambda>x. length x = 16 \<and> nibbles x"])
  show "length x = 16 \<and> nibbles x" using assms by simp
  show "(1::nat) \<le> 36" by simp
next
  fix j :: nat and s :: "byte list"
  assume j: "1 \<le> j" "j < 36" and s: "length s = 16 \<and> nibbles s"
  have row: "j < length (rk t)" "length (rk t ! j) = 8" "nibbles (rk t ! j)"
    using valid_rk_row [OF assms(1), of j] j by simp_all
  show "seq (feistel t j s) (permute shuf) = Inr (spec_permute shuf (spec_feistel (rk t ! j) s)) \<and>
        (length (spec_permute shuf (spec_feistel (rk t ! j) s)) = 16 \<and>
         nibbles (spec_permute shuf (spec_feistel (rk t ! j) s)))"
    using s row
    by (simp add: feistel_ok permute_shuf_ok length_spec_feistel length_spec_permute
        nibbles_spec_feistel nibbles_spec_permute)
qed

lemma dec_loop:
  assumes "valid_rk (rk t)" "length x = 16" "nibbles x"
  shows "for_down 36 2 (\<lambda>i x. seq (feistel t i x) (permute shufinv)) x =
           Inr (fold (\<lambda>i X. spec_permute shufinv (spec_feistel (rk t ! i) X)) (rev [2..<Suc 36]) x)
         \<and> (length (fold (\<lambda>i X. spec_permute shufinv (spec_feistel (rk t ! i) X)) (rev [2..<Suc 36]) x) = 16
            \<and> nibbles (fold (\<lambda>i X. spec_permute shufinv (spec_feistel (rk t ! i) X)) (rev [2..<Suc 36]) x))"
proof (rule for_down_fold [where I = "\<lambda>x. length x = 16 \<and> nibbles x"])
  show "length x = 16 \<and> nibbles x" using assms by simp
  show "(0::nat) < 2" by simp
next
  fix j :: nat and s :: "byte list"
  assume j: "2 \<le> j" "j \<le> 36" and s: "length s = 16 \<and> nibbles s"
  have row: "j < length (rk t)" "length (rk t ! j) = 8" "nibbles (rk t ! j)"
    using valid_rk_row [OF assms(1), of j] j by simp_all
  show "seq (feistel t j s) (permute shufinv) = Inr (spec_permute shufinv (spec_feistel (rk t ! j) s)) \<and>
        (length (spec_permute shufinv (spec_feistel (rk t ! j) s)) = 16 \<and>
         nibbles (spec_permute shufinv (spec_feistel (rk t ! j) s)))"
    using s row
    by (simp add: feistel_ok permute_shufinv_ok length_spec_feistel length_spec_permute
        nibbles_spec_feistel nibbles_spec_permute)
qed

text \<open>The block after unpacking a source of at most 8 bytes.\<close>

lemma Encrypt_ok:
  assumes "valid_rk (rk t)" "length src \<le> 8" "8 \<le> length dst"
  defines "x \<equiv> spec_unpack src @ replicate (16 - 2 * length src) 0"
  shows "Encrypt t dst src = Inr (spec_pack (enc_rounds 36 (rk t) x) @ drop 8 dst)"
    and "nibbles (enc_rounds 36 (rk t) x)"
proof -
  have u: "unpack 16 src = Inr x"
    unfolding x_def by (rule unpack_ok) (use assms(2) in simp)
  have x: "length x = 16" "nibbles x"
    using assms(2) by (simp_all add: x_def length_spec_unpack nibbles_append nibbles_spec_unpack nibbles_zeros)
  let ?y = "fold (\<lambda>i X. spec_permute shuf (spec_feistel (rk t ! i) X)) [1..<36] x"
  note l = enc_loop [OF assms(1) x]
  have row: "36 < length (rk t)" "length (rk t ! 36) = 8" "nibbles (rk t ! 36)"
    using valid_rk_row [OF assms(1), of 36] by simp_all
  have f: "feistel t 36 ?y = Inr (enc_rounds 36 (rk t) x)"
    using l row by (simp add: feistel_ok enc_rounds_def)
  show "Encrypt t dst src = Inr (spec_pack (enc_rounds 36 (rk t) x) @ drop 8 dst)"
    using u l f assms(3) by (simp add: Encrypt_def pack_ok length_enc_rounds)
  show "nibbles (enc_rounds 36 (rk t) x)"
    unfolding enc_rounds_def using l row by (simp add: nibbles_spec_feistel)
qed

lemma Decrypt_ok:
  assumes "valid_rk (rk t)" "length src \<le> 8" "8 \<le> length dst"
  defines "x \<equiv> spec_unpack src @ replicate (16 - 2 * length src) 0"
  shows "Decrypt t dst src = Inr (spec_pack (dec_rounds 36 (rk t) x) @ drop 8 dst)"
    and "nibbles (dec_rounds 36 (rk t) x)"
proof -
  have u: "unpack 16 src = Inr x"
    unfolding x_def by (rule unpack_ok) (use assms(2) in simp)
  have x: "length x = 16" "nibbles x"
    using assms(2) by (simp_all add: x_def length_spec_unpack nibbles_append nibbles_spec_unpack nibbles_zeros)
  let ?y = "fold (\<lambda>i X. spec_permute shufinv (spec_feistel (rk t ! i) X)) (rev [2..<Suc 36]) x"
  note l = dec_loop [OF assms(1) x]
  have row: "1 < length (rk t)" "length (rk t ! 1) = 8" "nibbles (rk t ! 1)"
    using valid_rk_row [OF assms(1), of 1] by simp_all
  have f: "feistel t 1 ?y = Inr (dec_rounds 36 (rk t) x)"
    using l row by (simp add: feistel_ok dec_rounds_def)
  show "Decrypt t dst src = Inr (spec_pack (dec_rounds 36 (rk t) x) @ drop 8 dst)"
    using u l f assms(3) by (simp add: Decrypt_def pack_ok length_dec_rounds)
  show "nibbles (dec_rounds 36 (rk t) x)"
    unfolding dec_rounds_def using l row by (simp add: nibbles_spec_feistel)
qed

subsection \<open>The key schedule: taps and round keys\<close>

lemma list20:
  assumes "length xs = 20"
  obtains w0 w1 w2 w3 w4 w5 w6 w7 w8 w9 w10 w11 w12 w13 w14 w15 w16 w17 w18 w19
  where "xs = [w0, w1, w2, w3, w4, w5, w6, w7, w8, w9, w10, w11, w12, w13, w14, w15,
               w16, w17, w18, w19]"
proof -
  from list4 [of xs 16] assms obtain w0 w1 w2 w3 ys
    where 1: "xs = w0 # w1 # w2 # w3 # ys" "length ys = 16"
    by auto
  from 1(2) obtain w4 w5 w6 w7 w8 w9 w10 w11 w12 w13 w14 w15 w16 w17 w18 w19
    where "ys = [w4, w5, w6, w7, w8, w9, w10, w11, w12, w13, w14, w15, w16, w17, w18, w19]"
    by (rule list16)
  with 1 that show thesis by simp
qed

lemma list32:
  assumes "length xs = 32"
  obtains w0 w1 w2 w3 w4 w5 w6 w7 w8 w9 w10 w11 w12 w13 w14 w15 w16 w17 w18 w19
    w20 w21 w22 w23 w24 w25 w26 w27 w28 w29 w30 w31
  where "xs = [w0, w1, w2, w3, w4, w5, w6, w7, w8, w9, w10, w11, w12, w13, w14, w15,
               w16, w17, w18, w19, w20, w21, w22, w23, w24, w25, w26, w27, w28, w29, w30, w31]"
proof -
  have "length (take 16 xs) = 16" "length (drop 16 xs) = 16" using assms by simp_all
  then obtain w0 w1 w2 w3 w4 w5 w6 w7 w8 w9 w10 w11 w12 w13 w14 w15
    w16 w17 w18 w19 w20 w21 w22 w23 w24 w25 w26 w27 w28 w29 w30 w31
    where "take 16 xs = [w0, w1, w2, w3, w4, w5, w6, w7, w8, w9, w10, w11, w12, w13, w14, w15]"
      and "drop 16 xs = [w16, w17, w18, w19, w20, w21, w22, w23, w24, w25, w26, w27, w28, w29, w30, w31]"
    by (elim list16) 
  moreover have "xs = take 16 xs @ drop 16 xs" by simp
  ultimately have "xs = [w0, w1, w2, w3, w4, w5, w6, w7, w8, w9, w10, w11, w12, w13, w14, w15,
               w16, w17, w18, w19, w20, w21, w22, w23, w24, w25, w26, w27, w28, w29, w30, w31]"
    by simp
  then show thesis by (rule that)
qed

lemma length_roundconst: "length roundconst = 37"
  by (simp add: roundconst_def)

lemma roundconst_hi: "i < 37 \<Longrightarrow> drop_bit 3 (roundconst ! i) < 16"
proof -
  assume "i < 37"
  then have "roundconst ! i \<in> set roundconst" by (simp add: length_roundconst)
  moreover have "\<forall>c\<in>set roundconst. drop_bit 3 c < 16"
    by (simp add: roundconst_def drop_bit_eq_div)
  ultimately show ?thesis by blast
qed

lemma rk_shape_row: "rk_shape rows \<Longrightarrow> i < 37 \<Longrightarrow> i < length rows \<and> length (rows ! i) = 8"
  by (simp add: rk_shape_def list_all_length)

lemma set_rk_ok:
  "i < length (rk t) \<Longrightarrow> j < length (rk t ! i) \<Longrightarrow>
   set_rk t i j v = Inr (t\<lparr>rk := (rk t)[i := (rk t ! i)[j := v]]\<rparr>)"
  by (simp add: set_rk_def at_ok store_ok)

lemma tap_ok:
  assumes "rk_shape (rk t)" "i < 37" "length ps = 8"
  shows "tap ps t i wk = Inr (t\<lparr>rk := (rk t)[i := map (\<lambda>p. wk ! p) ps]\<rparr>)"
proof -
  have i: "i < length (rk t)" and len: "length (rk t ! i) = 8"
    using rk_shape_row [OF assms(1,2)] by simp_all
  from len obtain r0 r1 r2 r3 r4 r5 r6 r7 where row: "rk t ! i = [r0, r1, r2, r3, r4, r5, r6, r7]"
    by (rule list8)
  from assms(3) obtain p0 p1 p2 p3 p4 p5 p6 p7 where ps: "ps = [p0, p1, p2, p3, p4, p5, p6, p7]"
    by (rule list8)
  show ?thesis
    unfolding tap_def ps using i by (simp add: set_rk_ok row)
qed

lemma update80_ok:
  assumes "length wk = 20" "nibbles wk" "i < 37"
  shows "update80 i wk = Inr (spec_update80 i wk)"
    and "nibbles (spec_update80 i wk)"
    and "length (spec_update80 i wk) = 20"
proof -
  from assms(1) obtain w0 w1 w2 w3 w4 w5 w6 w7 w8 w9 w10 w11 w12 w13 w14 w15 w16 w17 w18 w19
    where wk: "wk = [w0, w1, w2, w3, w4, w5, w6, w7, w8, w9, w10, w11, w12, w13, w14, w15,
               w16, w17, w18, w19]"
    by (rule list20)
  have n: "w0 < 16" "w1 < 16" "w2 < 16" "w3 < 16" "w4 < 16" "w5 < 16" "w6 < 16" "w7 < 16"
    "w8 < 16" "w9 < 16" "w10 < 16" "w11 < 16" "w12 < 16" "w13 < 16" "w14 < 16" "w15 < 16"
    "w16 < 16" "w17 < 16" "w18 < 16" "w19 < 16"
    using assms(2) by (simp_all add: wk nibbles_def nibble_def)
  have c: "at roundconst i = Inr (roundconst ! i)"
    using assms(3) by (simp add: at_ok length_roundconst)
  show "update80 i wk = Inr (spec_update80 i wk)"
    unfolding update80_def spec_update80_def shift_left_def wk
    using assms(3)
    by (simp add: Let_def n [unfolded nib_unat] length_sbox length_roundconst for_up_step for_up_stop at_def store_def)
  show "nibbles (spec_update80 i wk)"
    unfolding spec_update80_def wk
    by (simp add: Let_def n nibbles_def nibble_def nib_xor sbox_nibble roundconst_hi [OF assms(3)] nib_and7)
  show "length (spec_update80 i wk) = 20"
    unfolding spec_update80_def wk by (simp add: Let_def)
qed

lemma update128_ok:
  assumes "length wk = 32" "nibbles wk" "i < 37"
  shows "update128 i wk = Inr (spec_update128 i wk)"
    and "nibbles (spec_update128 i wk)"
    and "length (spec_update128 i wk) = 32"
proof -
  from assms(1) obtain w0 w1 w2 w3 w4 w5 w6 w7 w8 w9 w10 w11 w12 w13 w14 w15 w16 w17 w18 w19
    w20 w21 w22 w23 w24 w25 w26 w27 w28 w29 w30 w31
    where wk: "wk = [w0, w1, w2, w3, w4, w5, w6, w7, w8, w9, w10, w11, w12, w13, w14, w15,
               w16, w17, w18, w19, w20, w21, w22, w23, w24, w25, w26, w27, w28, w29, w30, w31]"
    by (rule list32)
  have n: "w0 < 16" "w1 < 16" "w2 < 16" "w3 < 16" "w4 < 16" "w5 < 16" "w6 < 16" "w7 < 16"
    "w8 < 16" "w9 < 16" "w10 < 16" "w11 < 16" "w12 < 16" "w13 < 16" "w14 < 16" "w15 < 16"
    "w16 < 16" "w17 < 16" "w18 < 16" "w19 < 16" "w20 < 16" "w21 < 16" "w22 < 16" "w23 < 16"
    "w24 < 16" "w25 < 16" "w26 < 16" "w27 < 16" "w28 < 16" "w29 < 16" "w30 < 16" "w31 < 16"
    using assms(2) by (simp_all add: wk nibbles_def nibble_def)
  have c: "at roundconst i = Inr (roundconst ! i)"
    using assms(3) by (simp add: at_ok length_roundconst)
  show "update128 i wk = Inr (spec_update128 i wk)"
    unfolding update128_def spec_update128_def shift_left_def wk
    using assms(3)
    by (simp add: Let_def n [unfolded nib_unat] length_sbox length_roundconst for_up_step for_up_stop at_def store_def)
  show "nibbles (spec_update128 i wk)"
    unfolding spec_update128_def wk
    by (simp add: Let_def n nibbles_def nibble_def nib_xor sbox_nibble roundconst_hi [OF assms(3)] nib_and7)
  show "length (spec_update128 i wk) = 32"
    unfolding spec_update128_def wk by (simp add: Let_def)
qed

lemma spec_wk80_1: "spec_wk80 key (Suc 0) = spec_unpack key"
  by (simp add: spec_wk80_def)

lemma spec_wk80_Suc: "1 \<le> j \<Longrightarrow> spec_wk80 key (Suc j) = spec_update80 j (spec_wk80 key j)"
  by (simp add: spec_wk80_def)

lemma spec_wk128_1: "spec_wk128 key (Suc 0) = spec_unpack key"
  by (simp add: spec_wk128_def)

lemma spec_wk128_Suc: "1 \<le> j \<Longrightarrow> spec_wk128 key (Suc j) = spec_update128 j (spec_wk128 key j)"
  by (simp add: spec_wk128_def)

lemma rk_shape_update:
  "rk_shape rows \<Longrightarrow> length row = 8 \<Longrightarrow> rk_shape (rows[i := row])"
  by (cases "i < length rows") (auto simp add: rk_shape_def list_all_length nth_list_update)

lemma nibbles_nth: "nibbles xs \<Longrightarrow> i < length xs \<Longrightarrow> xs ! i < 16"
  by (simp add: nibbles_def nibble_def list_all_length)

lemma nibbles_spec_rk80:
  assumes "length (spec_wk80 key i) = 20" "nibbles (spec_wk80 key i)"
  shows "nibbles (spec_rk80 key i)"
proof -
  have "\<forall>n<20. nibble (spec_wk80 key i ! n)"
    using assms by (simp add: nibbles_def list_all_length)
  then show ?thesis by (simp add: spec_rk80_def nibbles_def)
qed

lemma nibbles_spec_rk128:
  assumes "length (spec_wk128 key i) = 32" "nibbles (spec_wk128 key i)"
  shows "nibbles (spec_rk128 key i)"
proof -
  have "\<forall>n<32. nibble (spec_wk128 key i ! n)"
    using assms by (simp add: nibbles_def list_all_length)
  then show ?thesis by (simp add: spec_rk128_def nibbles_def)
qed

lemma round80_ok:
  assumes "rk_shape (rk t)" "length wk = 20" "nibbles wk" "i < 37"
  shows "round80 i (t, wk) =
         Inr (t\<lparr>rk := (rk t)[i := map (\<lambda>p. wk ! p) taps80]\<rparr>, spec_update80 i wk)"
  using assms by (simp add: round80_def tap_ok update80_ok taps80_def)

lemma round128_ok:
  assumes "rk_shape (rk t)" "length wk = 32" "nibbles wk" "i < 37"
  shows "round128 i (t, wk) =
         Inr (t\<lparr>rk := (rk t)[i := map (\<lambda>p. wk ! p) taps128]\<rparr>, spec_update128 i wk)"
  using assms by (simp add: round128_def tap_ok update128_ok taps128_def)

lemma loop80:
  assumes "length key = 10" "rk_shape (rk t0)" "1 \<le> k" "k \<le> 36"
  shows "\<exists>t. for_up 1 k round80 (t0, spec_unpack key) = Inr (t, spec_wk80 key k)
           \<and> length (spec_wk80 key k) = 20 \<and> nibbles (spec_wk80 key k)
           \<and> rk_shape (rk t)
           \<and> (\<forall>i. 1 \<le> i \<and> i < k \<longrightarrow> rk t ! i = spec_rk80 key i \<and> nibbles (rk t ! i))
           \<and> rk t ! 0 = rk t0 ! 0"
proof -
  define I where "I = (\<lambda>j (s :: twineCipher \<times> byte list).
     snd s = spec_wk80 key j \<and> length (snd s) = 20 \<and> nibbles (snd s) \<and> rk_shape (rk (fst s))
     \<and> (\<forall>i. 1 \<le> i \<and> i < j \<longrightarrow> rk (fst s) ! i = spec_rk80 key i \<and> nibbles (rk (fst s) ! i))
     \<and> rk (fst s) ! 0 = rk t0 ! 0)"
  have init: "I 1 (t0, spec_unpack key)"
    using assms(1,2) by (simp add: I_def spec_wk80_1 length_spec_unpack nibbles_spec_unpack)
  have step: "\<exists>s'. round80 j s = Inr s' \<and> I (j + 1) s'"
    if j: "1 \<le> j" "j < k" and inv: "I j s" for j s
  proof -
    obtain t wk where s: "s = (t, wk)" by (cases s)
    have wk: "wk = spec_wk80 key j" "length wk = 20" "nibbles wk" and sh: "rk_shape (rk t)"
      and rows: "\<forall>i. 1 \<le> i \<and> i < j \<longrightarrow> rk t ! i = spec_rk80 key i \<and> nibbles (rk t ! i)"
      and r0: "rk t ! 0 = rk t0 ! 0"
      using inv by (auto simp add: I_def s)
    have j37: "j < 37" using j assms(4) by simp
    have jl: "j < length (rk t)" using rk_shape_row [OF sh j37] by simp
    have row: "map (\<lambda>p. wk ! p) taps80 = spec_rk80 key j"
      by (simp add: spec_rk80_def taps80_def wk(1))
    have nrow: "nibbles (spec_rk80 key j)"
      using wk by (simp add: nibbles_spec_rk80)
    let ?t = "t\<lparr>rk := (rk t)[j := spec_rk80 key j]\<rparr>"
    have r: "round80 j s = Inr (?t, spec_update80 j wk)"
      using round80_ok [OF sh wk(2,3) j37] by (simp add: s row)
    have "I (j + 1) (?t, spec_update80 j wk)"
      unfolding I_def using j jl rows r0 nrow update80_ok(2,3) [OF wk(2,3) j37] sh
      by (auto simp add: spec_wk80_Suc wk(1) rk_shape_update spec_rk80_def
          nth_list_update less_Suc_eq)
    then show ?thesis using r by blast
  qed
  from for_up_inv [of I 1 "(t0, spec_unpack key)" k round80, OF init assms(3) step]
  obtain s' where s': "for_up 1 k round80 (t0, spec_unpack key) = Inr s'" "I k s'"
    by blast
  then show ?thesis
    by (cases s') (auto simp add: I_def)
qed

lemma loop128:
  assumes "length key = 16" "rk_shape (rk t0)" "1 \<le> k" "k \<le> 36"
  shows "\<exists>t. for_up 1 k round128 (t0, spec_unpack key) = Inr (t, spec_wk128 key k)
           \<and> length (spec_wk128 key k) = 32 \<and> nibbles (spec_wk128 key k)
           \<and> rk_shape (rk t)
           \<and> (\<forall>i. 1 \<le> i \<and> i < k \<longrightarrow> rk t ! i = spec_rk128 key i \<and> nibbles (rk t ! i))
           \<and> rk t ! 0 = rk t0 ! 0"
proof -
  define I where "I = (\<lambda>j (s :: twineCipher \<times> byte list).
     snd s = spec_wk128 key j \<and> length (snd s) = 32 \<and> nibbles (snd s) \<and> rk_shape (rk (fst s))
     \<and> (\<forall>i. 1 \<le> i \<and> i < j \<longrightarrow> rk (fst s) ! i = spec_rk128 key i \<and> nibbles (rk (fst s) ! i))
     \<and> rk (fst s) ! 0 = rk t0 ! 0)"
  have init: "I 1 (t0, spec_unpack key)"
    using assms(1,2) by (simp add: I_def spec_wk128_1 length_spec_unpack nibbles_spec_unpack)
  have step: "\<exists>s'. round128 j s = Inr s' \<and> I (j + 1) s'"
    if j: "1 \<le> j" "j < k" and inv: "I j s" for j s
  proof -
    obtain t wk where s: "s = (t, wk)" by (cases s)
    have wk: "wk = spec_wk128 key j" "length wk = 32" "nibbles wk" and sh: "rk_shape (rk t)"
      and rows: "\<forall>i. 1 \<le> i \<and> i < j \<longrightarrow> rk t ! i = spec_rk128 key i \<and> nibbles (rk t ! i)"
      and r0: "rk t ! 0 = rk t0 ! 0"
      using inv by (auto simp add: I_def s)
    have j37: "j < 37" using j assms(4) by simp
    have jl: "j < length (rk t)" using rk_shape_row [OF sh j37] by simp
    have row: "map (\<lambda>p. wk ! p) taps128 = spec_rk128 key j"
      by (simp add: spec_rk128_def taps128_def wk(1))
    have nrow: "nibbles (spec_rk128 key j)"
      using wk by (simp add: nibbles_spec_rk128)
    let ?t = "t\<lparr>rk := (rk t)[j := spec_rk128 key j]\<rparr>"
    have r: "round128 j s = Inr (?t, spec_update128 j wk)"
      using round128_ok [OF sh wk(2,3) j37] by (simp add: s row)
    have "I (j + 1) (?t, spec_update128 j wk)"
      unfolding I_def using j jl rows r0 nrow update128_ok(2,3) [OF wk(2,3) j37] sh
      by (auto simp add: spec_wk128_Suc wk(1) rk_shape_update spec_rk128_def
          nth_list_update less_Suc_eq)
    then show ?thesis using r by blast
  qed
  from for_up_inv [of I 1 "(t0, spec_unpack key)" k round128, OF init assms(3) step]
  obtain s' where s': "for_up 1 k round128 (t0, spec_unpack key) = Inr s'" "I k s'"
    by blast
  then show ?thesis
    by (cases s') (auto simp add: I_def)
qed

subsection \<open>Construction\<close>

lemma rk_shape_zero: "rk_shape (rk zero_cipher)"
  by (simp add: zero_cipher_def rk_shape_def list_all_length)

lemma expandKeys80_ok:
  assumes "length key = 10" "rk_shape (rk t0)"
  shows "\<exists>t. expandKeys80 t0 key = Inr t \<and> rk_shape (rk t)
           \<and> (\<forall>i. 1 \<le> i \<and> i \<le> 36 \<longrightarrow> rk t ! i = spec_rk80 key i \<and> nibbles (rk t ! i))
           \<and> rk t ! 0 = rk t0 ! 0"
proof -
  from loop80 [OF assms, of 36] obtain t where
    l: "for_up 1 36 round80 (t0, spec_unpack key) = Inr (t, spec_wk80 key 36)"
    and wk: "length (spec_wk80 key 36) = 20" "nibbles (spec_wk80 key 36)"
    and sh: "rk_shape (rk t)"
    and rows: "\<forall>i. 1 \<le> i \<and> i < 36 \<longrightarrow> rk t ! i = spec_rk80 key i \<and> nibbles (rk t ! i)"
    and r0: "rk t ! 0 = rk t0 ! 0"
    by auto
  have u: "unpack 20 key = Inr (spec_unpack key)"
    by (rule unpack_exact) (simp add: assms(1))
  let ?t = "t\<lparr>rk := (rk t)[36 := spec_rk80 key 36]\<rparr>"
  have tp: "tap taps80 t 36 (spec_wk80 key 36) = Inr ?t"
    using tap_ok [OF sh, of 36 taps80] by (simp add: taps80_def spec_rk80_def)
  have "expandKeys80 t0 key =
        seq (for_up 1 36 round80 (t0, spec_unpack key)) (\<lambda>(t, wk). tap taps80 t 36 wk)"
    by (simp add: expandKeys80_def u)
  also have "\<dots> = tap taps80 t 36 (spec_wk80 key 36)"
    by (simp only: l seq_Inr prod.case)
  finally have e: "expandKeys80 t0 key = Inr ?t"
    using tp by simp
  have l36: "36 < length (rk t)" using rk_shape_row [OF sh, of 36] by simp
  have "rk_shape (rk ?t)"
    using sh by (simp add: rk_shape_update spec_rk80_def)
  moreover have "\<forall>i. 1 \<le> i \<and> i \<le> 36 \<longrightarrow> rk ?t ! i = spec_rk80 key i \<and> nibbles (rk ?t ! i)"
    using rows l36 nibbles_spec_rk80 [OF wk] by (auto simp add: nth_list_update le_less)
  moreover have "rk ?t ! 0 = rk t0 ! 0"
    using r0 by simp
  ultimately show ?thesis using e by blast
qed

lemma expandKeys128_ok:
  assumes "length key = 16" "rk_shape (rk t0)"
  shows "\<exists>t. expandKeys128 t0 key = Inr t \<and> rk_shape (rk t)
           \<and> (\<forall>i. 1 \<le> i \<and> i \<le> 36 \<longrightarrow> rk t ! i = spec_rk128 key i \<and> nibbles (rk t ! i))
           \<and> rk t ! 0 = rk t0 ! 0"
proof -
  from loop128 [OF assms, of 36] obtain t where
    l: "for_up 1 36 round128 (t0, spec_unpack key) = Inr (t, spec_wk128 key 36)"
    and wk: "length (spec_wk128 key 36) = 32" "nibbles (spec_wk128 key 36)"
    and sh: "rk_shape (rk t)"
    and rows: "\<forall>i. 1 \<le> i \<and> i < 36 \<longrightarrow> rk t ! i = spec_rk128 key i \<and> nibbles (rk t ! i)"
    and r0: "rk t ! 0 = rk t0 ! 0"
    by auto
  have u: "unpack 32 key = Inr (spec_unpack key)"
    by (rule unpack_exact) (simp add: assms(1))
  let ?t = "t\<lparr>rk := (rk t)[36 := spec_rk128 key 36]\<rparr>"
  have tp: "tap taps128 t 36 (spec_wk128 key 36) = Inr ?t"
    using tap_ok [OF sh, of 36 taps128] by (simp add: taps128_def spec_rk128_def)
  have "expandKeys128 t0 key =
        seq (for_up 1 36 round128 (t0, spec_unpack key)) (\<lambda>(t, wk). tap taps128 t 36 wk)"
    by (simp add: expandKeys128_def u)
  also have "\<dots> = tap taps128 t 36 (spec_wk128 key 36)"
    by (simp only: l seq_Inr prod.case)
  finally have e: "expandKeys128 t0 key = Inr ?t"
    using tp by simp
  have l36: "36 < length (rk t)" using rk_shape_row [OF sh, of 36] by simp
  have "rk_shape (rk ?t)"
    using sh by (simp add: rk_shape_update spec_rk128_def)
  moreover have "\<forall>i. 1 \<le> i \<and> i \<le> 36 \<longrightarrow> rk ?t ! i = spec_rk128 key i \<and> nibbles (rk ?t ! i)"
    using rows l36 nibbles_spec_rk128 [OF wk] by (auto simp add: nth_list_update le_less)
  moreover have "rk ?t ! 0 = rk t0 ! 0"
    using r0 by simp
  ultimately show ?thesis using e by blast
qed

lemma valid_rkI:
  assumes "rk_shape rows" "\<forall>i. 1 \<le> i \<and> i \<le> 36 \<longrightarrow> nibbles (rows ! i)" "nibbles (rows ! 0)"
  shows "valid_rk rows"
proof -
  have "length (rows ! i) = 8 \<and> nibbles (rows ! i)" if "i < 37" for i
    using that assms rk_shape_row [OF assms(1) that] by (cases "i = 0") auto
  then show ?thesis using assms(1) by (simp add: valid_rk_def rk_shape_def list_all_length)
qed

lemma New_bad: "length key \<noteq> 10 \<Longrightarrow> length key \<noteq> 16 \<Longrightarrow> New key = Inr (Inl (KeySizeError (int (length key))))"
  by (simp add: New_def)

lemma New_80:
  assumes "length key = 10"
  shows "\<exists>t. New key = Inr (Inr t) \<and> valid_rk (rk t) \<and> (\<forall>i. 1 \<le> i \<and> i \<le> 36 \<longrightarrow> rk t ! i = spec_rk80 key i)"
proof -
  from expandKeys80_ok [OF assms rk_shape_zero] obtain t where
    t: "expandKeys80 zero_cipher key = Inr t" "rk_shape (rk t)"
      "\<forall>i. 1 \<le> i \<and> i \<le> 36 \<longrightarrow> rk t ! i = spec_rk80 key i \<and> nibbles (rk t ! i)"
      "rk t ! 0 = rk zero_cipher ! 0"
    by blast
  have "nibbles (rk t ! 0)" using t(4) by (simp add: zero_cipher_def nibbles_zeros)
  then have "valid_rk (rk t)" using t(2,3) by (intro valid_rkI) auto
  moreover have "New key = Inr (Inr t)" using assms t(1) by (simp add: New_def)
  ultimately show ?thesis using t(3) by blast
qed

lemma New_128:
  assumes "length key = 16"
  shows "\<exists>t. New key = Inr (Inr t) \<and> valid_rk (rk t) \<and> (\<forall>i. 1 \<le> i \<and> i \<le> 36 \<longrightarrow> rk t ! i = spec_rk128 key i)"
proof -
  from expandKeys128_ok [OF assms rk_shape_zero] obtain t where
    t: "expandKeys128 zero_cipher key = Inr t" "rk_shape (rk t)"
      "\<forall>i. 1 \<le> i \<and> i \<le> 36 \<longrightarrow> rk t ! i = spec_rk128 key i \<and> nibbles (rk t ! i)"
      "rk t ! 0 = rk zero_cipher ! 0"
    by blast
  have "nibbles (rk t ! 0)" using t(4) by (simp add: zero_cipher_def nibbles_zeros)
  then have "valid_rk (rk t)" using t(2,3) by (intro valid_rkI) auto
  moreover have "New key = Inr (Inr t)" using assms t(1) by (simp add: New_def)
  ultimately show ?thesis using t(3) by blast
qed

lemma New_valid:
  assumes "New key = Inr (Inr t)"
  shows "(length key = 10 \<or> length key = 16) \<and> valid_rk (rk t)"
proof -
  have len: "length key = 10 \<or> length key = 16"
    using assms by (cases "length key \<noteq> 10 \<and> length key \<noteq> 16") (auto simp add: New_bad)
  then show ?thesis
  proof
    assume "length key = 10"
    with New_80 [of key] assms show ?thesis by auto
  next
    assume "length key = 16"
    with New_128 [of key] assms show ?thesis by auto
  qed
qed

subsection \<open>Helper facts for the claims\<close>

lemma New_valid_key:
  assumes "length key = 10 \<or> length key = 16"
  shows "\<exists>t. New key = Inr (Inr t) \<and> valid_rk (rk t)"
  using assms New_80 [of key] New_128 [of key] by blast

lemma Encrypt_block:
  assumes "valid_rk (rk t)" "length src = 8" "8 \<le> length dst"
  shows "Encrypt t dst src = Inr (spec_encrypt (rk t) src @ drop 8 dst)"
    and "nibbles (enc_rounds 36 (rk t) (spec_unpack src))"
  using Encrypt_ok [OF assms(1) _ assms(3), of src] assms(2)
  by (simp_all add: spec_encrypt_def)

lemma Decrypt_block:
  assumes "valid_rk (rk t)" "length src = 8" "8 \<le> length dst"
  shows "Decrypt t dst src = Inr (spec_decrypt (rk t) src @ drop 8 dst)"
    and "nibbles (dec_rounds 36 (rk t) (spec_unpack src))"
  using Decrypt_ok [OF assms(1) _ assms(3), of src] assms(2)
  by (simp_all add: spec_decrypt_def)

lemma length_spec_encrypt: "length (spec_encrypt RK src) = 8"
  by (simp add: spec_encrypt_def length_spec_pack)

lemma length_spec_decrypt: "length (spec_decrypt RK src) = 8"
  by (simp add: spec_decrypt_def length_spec_pack)

lemma spec_decrypt_encrypt:
  assumes "valid_rk (rk (t :: twineCipher))" "length P = 8"
  shows "spec_decrypt (rk t) (spec_encrypt (rk t) P) = P"
proof -
  have n: "nibbles (enc_rounds 36 (rk t) (spec_unpack P))"
    using Encrypt_block(2) [OF assms, of "replicate 8 0"] by simp
  have "spec_unpack (spec_encrypt (rk t) P) = enc_rounds 36 (rk t) (spec_unpack P)"
    using n by (simp add: spec_encrypt_def spec_unpack_pack length_enc_rounds)
  then show ?thesis
    using assms(2)
    by (simp add: spec_decrypt_def dec_enc_rounds length_spec_unpack spec_pack_unpack)
qed

lemma spec_encrypt_decrypt:
  assumes "valid_rk (rk (t :: twineCipher))" "length C = 8"
  shows "spec_encrypt (rk t) (spec_decrypt (rk t) C) = C"
proof -
  have n: "nibbles (dec_rounds 36 (rk t) (spec_unpack C))"
    using Decrypt_block(2) [OF assms, of "replicate 8 0"] by simp
  have "spec_unpack (spec_decrypt (rk t) C) = dec_rounds 36 (rk t) (spec_unpack C)"
    using n by (simp add: spec_decrypt_def spec_unpack_pack length_dec_rounds)
  then show ?thesis
    using assms(2)
    by (simp add: spec_encrypt_def enc_dec_rounds length_spec_unpack spec_pack_unpack)
qed

section \<open>Properties of the cipher\<close>

subsection \<open>Round trip\<close>

text \<open>
  C2. Round trip: for every key of 10 or 16 bytes, on the instance that \<open>New\<close> returns
  for it, decrypting the encryption of an 8-byte block \<open>P\<close> gives \<open>P\<close>, and encrypting
  the decryption of an 8-byte block \<open>C\<close> gives \<open>C\<close>. The destinations are 8-byte
  buffers with any contents; none of the calls panics.
\<close>

theorem round_trip:
  assumes "length key = 10 \<or> length key = 16"
    and "length P = 8" and "length C = 8" and "length dst = 8" and "length dst' = 8"
  shows "\<exists>t. New key = Inr (Inr t)
           \<and> (\<exists>c. Encrypt t dst P = Inr c \<and> Decrypt t dst' c = Inr P)
           \<and> (\<exists>p. Decrypt t dst C = Inr p \<and> Encrypt t dst' p = Inr C)"
proof -
  from New_valid_key [OF assms(1)] obtain t where t: "New key = Inr (Inr t)" "valid_rk (rk t)"
    by blast
  have e: "Encrypt t dst P = Inr (spec_encrypt (rk t) P)"
    using Encrypt_block(1) [OF t(2) assms(2), of dst] assms(4) by simp
  have "Decrypt t dst' (spec_encrypt (rk t) P) = Inr (spec_decrypt (rk t) (spec_encrypt (rk t) P))"
    using Decrypt_block(1) [OF t(2), of "spec_encrypt (rk t) P" dst'] assms(5)
    by (simp add: length_spec_encrypt)
  then have d: "Decrypt t dst' (spec_encrypt (rk t) P) = Inr P"
    by (simp add: spec_decrypt_encrypt [OF t(2) assms(2)])
  have d': "Decrypt t dst C = Inr (spec_decrypt (rk t) C)"
    using Decrypt_block(1) [OF t(2) assms(3), of dst] assms(4) by simp
  have "Encrypt t dst' (spec_decrypt (rk t) C) = Inr (spec_encrypt (rk t) (spec_decrypt (rk t) C))"
    using Encrypt_block(1) [OF t(2), of "spec_decrypt (rk t) C" dst'] assms(5)
    by (simp add: length_spec_decrypt)
  then have e': "Encrypt t dst' (spec_decrypt (rk t) C) = Inr C"
    by (simp add: spec_encrypt_decrypt [OF t(2) assms(3)])
  show ?thesis using t(1) e d d' e' by blast
qed

theorem round_trip_witness:
  "(length kat_key80 = 10 \<or> length kat_key80 = 16)
   \<and> length kat_plain = 8 \<and> length kat_cipher80 = 8 \<and> length (replicate 8 (0 :: byte)) = 8
   \<and> (\<exists>t. New kat_key80 = Inr (Inr t)
         \<and> (\<exists>c. Encrypt t (replicate 8 0) kat_plain = Inr c \<and> Decrypt t (replicate 8 0) c = Inr kat_plain)
         \<and> (\<exists>p. Decrypt t (replicate 8 0) kat_cipher80 = Inr p
                \<and> Encrypt t (replicate 8 0) p = Inr kat_cipher80))"
  using round_trip [of kat_key80 kat_plain kat_cipher80 "replicate 8 0" "replicate 8 0"]
  by (simp add: kat_key80_def kat_plain_def kat_cipher80_def)

subsection \<open>The key-size error\<close>

declare digits.simps [simp del]

lemma decimal_value_snoc:
  "decimal_value (ds @ [d]) = 10 * decimal_value ds + (of_char d - 48)"
  by (simp add: decimal_value_def)

lemma decimal_value_digit: "k < 10 \<Longrightarrow> decimal_value [char_of (48 + k)] = k"
  by (simp add: decimal_value_def)

lemma decimal_value_digits: "decimal_value (digits n) = n"
proof (induction n rule: digits.induct)
  case (1 n)
  show ?case
  proof (cases "n < 10")
    case True
    then show ?thesis by (subst digits.simps) (simp add: decimal_value_digit)
  next
    case False
    have "decimal_value (digits n) = 10 * decimal_value (digits (n div 10)) + n mod 10"
      using False by (subst digits.simps) (simp add: decimal_value_snoc)
    then show ?thesis using "1.IH" [OF False] by simp
  qed
qed

lemma digit_chars: "list_all (\<lambda>k. char_of (48 + k) \<in> set ''0123456789'') [0..<10::nat]"
  by code_simp

lemma digit_char: "k < 10 \<Longrightarrow> char_of (48 + k) \<in> set ''0123456789''" for k :: nat
  using digit_chars unfolding list_all_iff by (metis atLeastLessThan_iff set_upt zero_le)

lemma digits_are_digits: "list_all (\<lambda>c. c \<in> set ''0123456789'') (digits n)"
proof (induction n rule: digits.induct)
  case (1 n)
  show ?case
  proof (cases "n < 10")
    case True
    then show ?thesis using digit_char [of n] by (subst digits.simps) simp
  next
    case False
    then show ?thesis using "1.IH" [OF False] digit_char [of "n mod 10"]
      by (subst digits.simps) simp
  qed
qed

lemma Itoa_nat: "Itoa (int n) = digits n"
  by (simp add: Itoa_def)

lemma New_ok_iff: "(\<exists>t. New key = Inr (Inr t)) \<longleftrightarrow> length key = 10 \<or> length key = 16"
  using New_valid_key [of key] New_valid [of key] by blast

lemma New_error_iff:
  "(\<exists>e. New key = Inr (Inl e)) \<longleftrightarrow> length key \<noteq> 10 \<and> length key \<noteq> 16"
proof
  assume "\<exists>e. New key = Inr (Inl e)"
  then have "\<not> (\<exists>t. New key = Inr (Inr t))" by auto
  then show "length key \<noteq> 10 \<and> length key \<noteq> 16" by (simp add: New_ok_iff)
next
  assume "length key \<noteq> 10 \<and> length key \<noteq> 16"
  then show "\<exists>e. New key = Inr (Inl e)" by (simp add: New_bad)
qed

text \<open>
  C3. \<open>New\<close> returns the invalid-key-size error exactly when the length of the key is
  neither 10 nor 16, and the error carries that length; for the lengths 10 and 16 it
  returns an instance and no error (and does not panic). The message of the error is
  \<open>twine: invalid key size\<close> followed by the length in decimal: a string of decimal
  digits whose value is the length.
\<close>

theorem New_key_size_error:
  "((\<exists>e. New key = Inr (Inl e)) \<longleftrightarrow> length key \<noteq> 10 \<and> length key \<noteq> 16)
   \<and> (New key = Inr (Inl (KeySizeError (int (length key)))) \<longleftrightarrow> length key \<noteq> 10 \<and> length key \<noteq> 16)
   \<and> ((\<exists>t. New key = Inr (Inr t)) \<longleftrightarrow> length key = 10 \<or> length key = 16)
   \<and> Error (KeySizeError (int (length key))) = ''twine: invalid key size '' @ Itoa (int (length key))
   \<and> list_all (\<lambda>c. c \<in> set ''0123456789'') (Itoa (int (length key)))
   \<and> decimal_value (Itoa (int (length key))) = length key"
proof -
  have a: "(\<exists>e. New key = Inr (Inl e)) \<longleftrightarrow> length key \<noteq> 10 \<and> length key \<noteq> 16"
    by (rule New_error_iff)
  have b: "New key = Inr (Inl (KeySizeError (int (length key)))) \<longleftrightarrow> length key \<noteq> 10 \<and> length key \<noteq> 16"
    using New_error_iff [of key] New_bad [of key] by blast
  have c: "(\<exists>t. New key = Inr (Inr t)) \<longleftrightarrow> length key = 10 \<or> length key = 16"
    by (rule New_ok_iff)
  have d: "Error (KeySizeError (int (length key))) = ''twine: invalid key size '' @ Itoa (int (length key))"
    by (simp only: Error.simps)
  have e: "list_all (\<lambda>c. c \<in> set ''0123456789'') (Itoa (int (length key)))"
    unfolding Itoa_nat by (rule digits_are_digits)
  have f: "decimal_value (Itoa (int (length key))) = length key"
    unfolding Itoa_nat by (rule decimal_value_digits)
  from a b c d e f show ?thesis by blast
qed

theorem New_key_size_error_witness:
  "New (replicate 9 0) = Inr (Inl (KeySizeError 9))
   \<and> New (replicate 17 0) = Inr (Inl (KeySizeError 17))
   \<and> New [] = Inr (Inl (KeySizeError 0))
   \<and> Error (KeySizeError 17) = ''twine: invalid key size 17''
   \<and> (\<exists>t. New kat_key80 = Inr (Inr t))
   \<and> (\<exists>t. New kat_key128 = Inr (Inr t))"
proof -
  have 1: "New (replicate 9 0) = Inr (Inl (KeySizeError 9))"
    using New_key_size_error [of "replicate 9 0", THEN conjunct2, THEN conjunct1] by simp
  have 2: "New (replicate 17 0) = Inr (Inl (KeySizeError 17))"
    using New_key_size_error [of "replicate 17 0", THEN conjunct2, THEN conjunct1] by simp
  have 3: "New [] = Inr (Inl (KeySizeError 0))"
    using New_key_size_error [of "[]", THEN conjunct2, THEN conjunct1] by simp
  have 4: "Error (KeySizeError 17) = ''twine: invalid key size 17''"
    by code_simp
  have 5: "\<exists>t. New kat_key80 = Inr (Inr t)"
    using New_key_size_error [of kat_key80, THEN conjunct2, THEN conjunct2, THEN conjunct1]
    by (simp add: kat_key80_def)
  have 6: "\<exists>t. New kat_key128 = Inr (Inr t)"
    using New_key_size_error [of kat_key128, THEN conjunct2, THEN conjunct2, THEN conjunct1]
    by (simp add: kat_key128_def)
  from 1 2 3 4 5 6 show ?thesis by blast
qed

subsection \<open>The constant tables\<close>

text \<open>
  C7. The S-box table has 16 entries and maps the indices \<open>0..15\<close> one-to-one onto the
  values \<open>0..15\<close>; the two shuffle tables have 16 entries each and are inverse to each
  other in both orders.
\<close>

theorem constant_tables:
  "length sbox = 16 \<and> bij_betw (\<lambda>i. unat (sbox ! i)) {0..<16} {0..<16}
   \<and> length shuf = 16 \<and> length shufinv = 16
   \<and> (\<forall>h\<in>{0..<16}. shufinv ! (shuf ! h) = h \<and> shuf ! (shufinv ! h) = h)"
proof -
  have s: "{0..<16::nat} = set [0..<16]" by simp
  have m: "map (\<lambda>i. unat (sbox ! i)) [0..<16] = [12, 0, 15, 10, 2, 11, 9, 5, 8, 3, 13, 7, 1, 14, 6, 4]"
    unfolding upt_0_16 by (simp add: sbox_def)
  have "distinct (map (\<lambda>i. unat (sbox ! i)) [0..<16])"
    unfolding m by simp
  then have inj: "inj_on (\<lambda>i. unat (sbox ! i)) {0..<16}"
    unfolding s by (simp add: distinct_map)
  have "(\<lambda>i. unat (sbox ! i)) ` {0..<16} = set (map (\<lambda>i. unat (sbox ! i)) [0..<16])"
    unfolding s by simp
  also have "\<dots> = set [12, 0, 15, 10, 2, 11, 9, 5, 8, 3, 13, 7, 1, 14, 6, 4]"
    by (simp only: m)
  also have "\<dots> = set [0..<16]"
    unfolding upt_0_16 by auto
  finally have img: "(\<lambda>i. unat (sbox ! i)) ` {0..<16} = {0..<16}"
    by simp
  have sh: "\<forall>h\<in>{0..<16}. shufinv ! (shuf ! h) = h \<and> shuf ! (shufinv ! h) = h"
    unfolding s upt_0_16 by (simp add: shuf_def shufinv_def)
  show ?thesis
    using inj img sh by (simp add: bij_betw_def length_sbox shuf_def shufinv_def)
qed

theorem constant_tables_witness:
  "unat (sbox ! 2) = 15 \<and> shuf ! 5 = 12 \<and> shufinv ! (shuf ! 5) = 5 \<and> shuf ! (shufinv ! 5) = 5"
  using constant_tables by (simp add: sbox_def shuf_def shufinv_def)

subsection \<open>Sources longer than a block\<close>

text \<open>
  C6. What the code does with a source longer than 8 bytes: the unpacking loop runs
  over the whole source and its ninth iteration indexes the 16-entry array \<open>x\<close> at 16;
  \<open>Encrypt\<close> and \<open>Decrypt\<close> panic before any round and before writing to the
  destination, whatever the instance.
\<close>

theorem long_source_panics:
  "8 < length src \<Longrightarrow>
     Encrypt t dst src = Inl (IndexOutOfRange 16 16) \<and> Decrypt t dst src = Inl (IndexOutOfRange 16 16)"
  using unpack_panic [of 8 16 src] by (simp add: Encrypt_def Decrypt_def)

theorem long_source_panics_witness:
  "8 < length (kat_plain @ [0])
   \<and> Encrypt \<lparr>rk = kat_rk80\<rparr> (replicate 8 0) (kat_plain @ [0]) = Inl (IndexOutOfRange 16 16)
   \<and> Decrypt \<lparr>rk = kat_rk80\<rparr> (replicate 8 0) (kat_plain @ [0]) = Inl (IndexOutOfRange 16 16)"
  using long_source_panics [of "kat_plain @ [0]" "\<lparr>rk = kat_rk80\<rparr>" "replicate 8 0"]
  by (simp add: kat_plain_def)

subsection \<open>The steps of encryption\<close>

lemma spec_unpack_nth:
  "i < length src \<Longrightarrow>
     spec_unpack src ! (2 * i) = drop_bit 4 (src ! i) \<and> spec_unpack src ! (2 * i + 1) = src ! i AND 0x0f"
proof (induction src arbitrary: i)
  case Nil
  then show ?case by simp
next
  case (Cons b src)
  show ?case
  proof (cases i)
    case 0
    then show ?thesis by (simp add: spec_unpack_def)
  next
    case (Suc k)
    then have "k < length src" using Cons.prems by simp
    from Cons.IH [OF this] show ?thesis
      by (simp add: spec_unpack_def Suc)
  qed
qed

lemma spec_feistel_nth:
  "j < 8 \<Longrightarrow>
     spec_feistel row X ! (2 * j) = X ! (2 * j)
     \<and> spec_feistel row X ! (2 * j + 1) = X ! (2 * j + 1) XOR sbox ! unat (X ! (2 * j) XOR row ! j)"
  by (simp add: spec_feistel_def)

lemma spec_permute_nth:
  assumes "length X = 16" "h < 16"
  shows "spec_permute shuf X ! (shuf ! h) = X ! h"
proof -
  from assms(1) obtain a0 a1 a2 a3 a4 a5 a6 a7 a8 a9 a10 a11 a12 a13 a14 a15
    where x: "X = [a0, a1, a2, a3, a4, a5, a6, a7, a8, a9, a10, a11, a12, a13, a14, a15]"
    by (rule list16)
  have "\<forall>h\<in>set [0..<16]. spec_permute shuf X ! (shuf ! h) = X ! h"
    unfolding x upt_0_16 spec_permute_shuf by (simp add: shuf_def)
  then show ?thesis using assms(2) by simp
qed

lemma spec_pack_nth:
  "k < 8 \<Longrightarrow> spec_pack X ! k = push_bit 4 (X ! (2 * k)) OR X ! (2 * k + 1)"
  by (simp add: spec_pack_def)

text \<open>
  C4. The steps of encryption. For a key of 10 or 16 bytes, an 8-byte source and a
  destination of 8 bytes, \<open>Encrypt\<close> on the instance of the key does not panic and
  returns the block of the specification: the source unpacked into 16 nibbles (nibble
  \<open>2i\<close> the high nibble of byte \<open>i\<close>, nibble \<open>2i+1\<close> the low nibble); for the rounds
  \<open>1..35\<close> the Feistel step \<open>X[2j+1] ^= S[X[2j] ^ RK[i][j]]\<close> for \<open>j\<close> in \<open>0..7\<close>
  followed by the permutation \<open>Y[shuf[h]] = X[h]\<close>; for round 36 the Feistel step alone;
  and the 16 nibbles repacked into 8 bytes. The last four conjuncts say what the four
  operations of the specification compute.
\<close>

theorem Encrypt_algorithm:
  assumes "length key = 10 \<or> length key = 16" and "length src = 8" and "length dst = 8"
  shows "(\<exists>t. New key = Inr (Inr t)
          \<and> Encrypt t dst src =
              Inr (spec_pack
                    (spec_feistel (rk t ! 36)
                      (fold (\<lambda>i X. spec_permute shuf (spec_feistel (rk t ! i) X)) [1..<36]
                        (spec_unpack src)))))
       \<and> (\<forall>i<8. spec_unpack src ! (2 * i) = drop_bit 4 (src ! i)
                 \<and> spec_unpack src ! (2 * i + 1) = src ! i AND 0x0f)
       \<and> (\<forall>row X. \<forall>j<8. spec_feistel row X ! (2 * j) = X ! (2 * j)
                 \<and> spec_feistel row X ! (2 * j + 1)
                     = X ! (2 * j + 1) XOR sbox ! unat (X ! (2 * j) XOR row ! j))
       \<and> (\<forall>X. length X = 16 \<longrightarrow> (\<forall>h<16. spec_permute shuf X ! (shuf ! h) = X ! h))
       \<and> (\<forall>X. \<forall>k<8. spec_pack X ! k = push_bit 4 (X ! (2 * k)) OR X ! (2 * k + 1))"
proof -
  from New_valid_key [OF assms(1)] obtain t where t: "New key = Inr (Inr t)" "valid_rk (rk t)"
    by blast
  have "Encrypt t dst src = Inr (spec_encrypt (rk t) src)"
    using Encrypt_block(1) [OF t(2) assms(2), of dst] assms(3) by simp
  then have e: "Encrypt t dst src =
              Inr (spec_pack
                    (spec_feistel (rk t ! 36)
                      (fold (\<lambda>i X. spec_permute shuf (spec_feistel (rk t ! i) X)) [1..<36]
                        (spec_unpack src))))"
    by (simp only: spec_encrypt_def enc_rounds_def)
  have u: "\<forall>i<8. spec_unpack src ! (2 * i) = drop_bit 4 (src ! i)
                 \<and> spec_unpack src ! (2 * i + 1) = src ! i AND 0x0f"
    using spec_unpack_nth [of _ src] assms(2) by simp
  show ?thesis
    using t(1) e u spec_feistel_nth spec_permute_nth spec_pack_nth by blast
qed

theorem Encrypt_algorithm_witness:
  "(length kat_key128 = 10 \<or> length kat_key128 = 16) \<and> length kat_plain = 8
   \<and> length (replicate 8 (0 :: byte)) = 8
   \<and> (\<exists>t. New kat_key128 = Inr (Inr t)
          \<and> Encrypt t (replicate 8 0) kat_plain =
              Inr (spec_pack
                    (spec_feistel (rk t ! 36)
                      (fold (\<lambda>i X. spec_permute shuf (spec_feistel (rk t ! i) X)) [1..<36]
                        (spec_unpack kat_plain)))))"
  using Encrypt_algorithm [of kat_key128 kat_plain "replicate 8 0", THEN conjunct1]
  by (simp add: kat_key128_def kat_plain_def)

subsection \<open>The 80-bit key schedule\<close>

text \<open>
  C5. The 80-bit key schedule. For a 10-byte key and an instance of the shape
  \<^verbatim>\<open>[37][8]byte\<close>, \<open>expandKeys80\<close> does not panic. The key is unpacked into the
  20-nibble register. At the start of iteration \<open>k\<close> of the loop (and, for \<open>k = 36\<close>,
  after the loop) the register of the code is \<open>spec_wk80 key k\<close>, where the register
  before round 1 is the unpacked key and the register before round \<open>i + 1\<close> is the
  update of the specification (non-linear mix of positions 1 and 4, round constant into
  positions 7 and 19, rotation with \<open>WK[16] = t1, WK[17] = t2, WK[18] = t3, WK[19] = t0\<close>)
  of the register before round \<open>i\<close>; the update of the code computes that update. Round
  key \<open>i\<close>, for \<open>i\<close> in \<open>1..36\<close>, is tapped from the register before round \<open>i\<close> at the
  positions 1, 3, 4, 6, 13, 14, 15, 16 in that order; row 0 is left as it was.
\<close>

theorem expandKeys80_schedule:
  assumes "length key = 10" and "rk_shape (rk t0)"
  shows "unpack 20 key = Inr (spec_unpack key) \<and> length (spec_unpack key) = 20
       \<and> spec_wk80 key 1 = spec_unpack key
       \<and> (\<forall>i\<in>{1..35}. spec_wk80 key (i + 1) = spec_update80 i (spec_wk80 key i)
                      \<and> update80 i (spec_wk80 key i) = Inr (spec_update80 i (spec_wk80 key i)))
       \<and> (\<forall>k\<in>{1..36}. \<exists>t. for_up 1 k round80 (t0, spec_unpack key) = Inr (t, spec_wk80 key k)
              \<and> (\<forall>i\<in>{1..<k}. rk t ! i = map (\<lambda>p. spec_wk80 key i ! p) [1, 3, 4, 6, 13, 14, 15, 16]))
       \<and> (\<exists>t. expandKeys80 t0 key = Inr t
              \<and> (\<forall>i\<in>{1..36}. rk t ! i = map (\<lambda>p. spec_wk80 key i ! p) [1, 3, 4, 6, 13, 14, 15, 16])
              \<and> rk t ! 0 = rk t0 ! 0)"
proof -
  have u: "unpack 20 key = Inr (spec_unpack key)"
    by (rule unpack_exact) (simp add: assms(1))
  have l: "length (spec_unpack key) = 20"
    by (simp add: length_spec_unpack assms(1))
  have w1: "spec_wk80 key 1 = spec_unpack key"
    using spec_wk80_1 [of key] by simp
  have upd: "spec_wk80 key (i + 1) = spec_update80 i (spec_wk80 key i)
           \<and> update80 i (spec_wk80 key i) = Inr (spec_update80 i (spec_wk80 key i))"
    if "i \<in> {1..35}" for i
  proof -
    have i: "1 \<le> i" "i \<le> 36" "i < 37" using that by simp_all
    from loop80 [OF assms i(1,2)]
    have "length (spec_wk80 key i) = 20" "nibbles (spec_wk80 key i)" by auto
    from update80_ok(1) [OF this i(3)] spec_wk80_Suc [OF i(1), of key]
    show ?thesis by simp
  qed
  have pre: "\<exists>t. for_up 1 k round80 (t0, spec_unpack key) = Inr (t, spec_wk80 key k)
              \<and> (\<forall>i\<in>{1..<k}. rk t ! i = map (\<lambda>p. spec_wk80 key i ! p) [1, 3, 4, 6, 13, 14, 15, 16])"
    if "k \<in> {1..36}" for k
  proof -
    have k: "1 \<le> k" "k \<le> 36" using that by simp_all
    from loop80 [OF assms k] show ?thesis
      by (auto simp add: spec_rk80_def)
  qed
  have fin: "\<exists>t. expandKeys80 t0 key = Inr t
              \<and> (\<forall>i\<in>{1..36}. rk t ! i = map (\<lambda>p. spec_wk80 key i ! p) [1, 3, 4, 6, 13, 14, 15, 16])
              \<and> rk t ! 0 = rk t0 ! 0"
    using expandKeys80_ok [OF assms] by (auto simp add: spec_rk80_def)
  from u l w1 upd pre fin show ?thesis by blast
qed

theorem expandKeys80_schedule_witness:
  "length kat_key80 = 10 \<and> rk_shape (rk zero_cipher)
   \<and> unpack 20 kat_key80 = Inr (spec_unpack kat_key80)
   \<and> (\<exists>t. expandKeys80 zero_cipher kat_key80 = Inr t
          \<and> rk t ! 1 = map (\<lambda>p. spec_wk80 kat_key80 1 ! p) [1, 3, 4, 6, 13, 14, 15, 16]
          \<and> rk t ! 36 = map (\<lambda>p. spec_wk80 kat_key80 36 ! p) [1, 3, 4, 6, 13, 14, 15, 16])"
proof -
  have k: "length kat_key80 = 10" by (simp add: kat_key80_def)
  from expandKeys80_schedule [OF k rk_shape_zero]
  have "unpack 20 kat_key80 = Inr (spec_unpack kat_key80)"
    and "\<exists>t. expandKeys80 zero_cipher kat_key80 = Inr t
              \<and> (\<forall>i\<in>{1..36}. rk t ! i = map (\<lambda>p. spec_wk80 kat_key80 i ! p) [1, 3, 4, 6, 13, 14, 15, 16])
              \<and> rk t ! 0 = rk zero_cipher ! 0"
    by blast+
  then show ?thesis using k rk_shape_zero by auto
qed

subsection \<open>The nibble invariant\<close>

text \<open>
  C8. The nibble invariant. For a key of 10 or 16 bytes every entry \<open>rk[i][j]\<close>, \<open>i\<close>
  in \<open>1..36\<close> and \<open>j\<close> in \<open>0..7\<close>, of the schedule that \<open>New\<close> builds is below 16: its
  high four bits are zero. In both key expansions every nibble of the working register
  is below 16 at the start of each iteration of the loop and after the loop (the
  register after the iterations \<open>1..k-1\<close>, for every \<open>k\<close> in \<open>1..36\<close>).
\<close>

theorem nibble_invariant:
  assumes "length key = 10 \<or> length key = 16"
  shows "(\<exists>t. New key = Inr (Inr t) \<and> length (rk t) = 37
            \<and> (\<forall>i\<in>{1..36}. length (rk t ! i) = 8
                  \<and> (\<forall>j\<in>{0..<8}. rk t ! i ! j < 16 \<and> drop_bit 4 (rk t ! i ! j) = 0)))
       \<and> (length key = 10 \<longrightarrow>
            (\<exists>wk0. unpack 20 key = Inr wk0
               \<and> (\<forall>k\<in>{1..36}. \<exists>t wk. for_up 1 k round80 (zero_cipher, wk0) = Inr (t, wk)
                      \<and> length wk = 20 \<and> (\<forall>n\<in>{0..<20}. wk ! n < 16))))
       \<and> (length key = 16 \<longrightarrow>
            (\<exists>wk0. unpack 32 key = Inr wk0
               \<and> (\<forall>k\<in>{1..36}. \<exists>t wk. for_up 1 k round128 (zero_cipher, wk0) = Inr (t, wk)
                      \<and> length wk = 32 \<and> (\<forall>n\<in>{0..<32}. wk ! n < 16))))"
proof -
  from New_valid_key [OF assms] obtain t where t: "New key = Inr (Inr t)" "valid_rk (rk t)"
    by blast
  have rows: "length (rk t ! i) = 8
                  \<and> (\<forall>j\<in>{0..<8}. rk t ! i ! j < 16 \<and> drop_bit 4 (rk t ! i ! j) = 0)"
    if "i \<in> {1..36}" for i
  proof -
    have "i < 37" using that by simp
    from valid_rk_row [OF t(2) this] have r: "length (rk t ! i) = 8" "nibbles (rk t ! i)"
      by simp_all
    have "rk t ! i ! j < 16" if "j < 8" for j
      using nibbles_nth [OF r(2), of j] that r(1) by simp
    then show ?thesis using r(1) by (simp add: nib_drop)
  qed
  have 1: "\<exists>t. New key = Inr (Inr t) \<and> length (rk t) = 37
            \<and> (\<forall>i\<in>{1..36}. length (rk t ! i) = 8
                  \<and> (\<forall>j\<in>{0..<8}. rk t ! i ! j < 16 \<and> drop_bit 4 (rk t ! i ! j) = 0))"
    using t rows by (auto simp add: valid_rk_def)
  have 2: "\<exists>wk0. unpack 20 key = Inr wk0
               \<and> (\<forall>k\<in>{1..36}. \<exists>t wk. for_up 1 k round80 (zero_cipher, wk0) = Inr (t, wk)
                      \<and> length wk = 20 \<and> (\<forall>n\<in>{0..<20}. wk ! n < 16))"
    if len: "length key = 10"
  proof -
    have u: "unpack 20 key = Inr (spec_unpack key)"
      by (rule unpack_exact) (simp add: len)
    have "\<exists>t wk. for_up 1 k round80 (zero_cipher, spec_unpack key) = Inr (t, wk)
                      \<and> length wk = 20 \<and> (\<forall>n\<in>{0..<20}. wk ! n < 16)"
      if "k \<in> {1..36}" for k
    proof -
      have k: "1 \<le> k" "k \<le> 36" using that by simp_all
      from loop80 [OF len rk_shape_zero k] obtain t' where
        "for_up 1 k round80 (zero_cipher, spec_unpack key) = Inr (t', spec_wk80 key k)"
        "length (spec_wk80 key k) = 20" "nibbles (spec_wk80 key k)"
        by blast
      then show ?thesis using nibbles_nth [of "spec_wk80 key k"] by auto
    qed
    then show ?thesis using u by blast
  qed
  have 3: "\<exists>wk0. unpack 32 key = Inr wk0
               \<and> (\<forall>k\<in>{1..36}. \<exists>t wk. for_up 1 k round128 (zero_cipher, wk0) = Inr (t, wk)
                      \<and> length wk = 32 \<and> (\<forall>n\<in>{0..<32}. wk ! n < 16))"
    if len: "length key = 16"
  proof -
    have u: "unpack 32 key = Inr (spec_unpack key)"
      by (rule unpack_exact) (simp add: len)
    have "\<exists>t wk. for_up 1 k round128 (zero_cipher, spec_unpack key) = Inr (t, wk)
                      \<and> length wk = 32 \<and> (\<forall>n\<in>{0..<32}. wk ! n < 16)"
      if "k \<in> {1..36}" for k
    proof -
      have k: "1 \<le> k" "k \<le> 36" using that by simp_all
      from loop128 [OF len rk_shape_zero k] obtain t' where
        "for_up 1 k round128 (zero_cipher, spec_unpack key) = Inr (t', spec_wk128 key k)"
        "length (spec_wk128 key k) = 32" "nibbles (spec_wk128 key k)"
        by blast
      then show ?thesis using nibbles_nth [of "spec_wk128 key k"] by auto
    qed
    then show ?thesis using u by blast
  qed
  from 1 2 3 show ?thesis by blast
qed

theorem nibble_invariant_witness:
  "(length kat_key128 = 10 \<or> length kat_key128 = 16)
   \<and> (\<exists>t. New kat_key128 = Inr (Inr t) \<and> rk t ! 1 ! 0 < 16 \<and> rk t ! 36 ! 7 < 16)
   \<and> (\<exists>wk0 t wk. unpack 32 kat_key128 = Inr wk0
         \<and> for_up 1 36 round128 (zero_cipher, wk0) = Inr (t, wk) \<and> wk ! 31 < 16)
   \<and> (length kat_key80 = 10 \<or> length kat_key80 = 16)
   \<and> (\<exists>t. New kat_key80 = Inr (Inr t) \<and> rk t ! 1 ! 0 < 16 \<and> rk t ! 36 ! 7 < 16)
   \<and> (\<exists>wk0 t wk. unpack 20 kat_key80 = Inr wk0
         \<and> for_up 1 36 round80 (zero_cipher, wk0) = Inr (t, wk) \<and> wk ! 19 < 16)"
proof -
  have k: "length kat_key128 = 16" by (simp add: kat_key128_def)
  then have k': "length kat_key128 = 10 \<or> length kat_key128 = 16" by simp
  note n = nibble_invariant [OF k']
  from n obtain t where "New kat_key128 = Inr (Inr t)"
    "\<forall>i\<in>{1..36}. length (rk t ! i) = 8
                  \<and> (\<forall>j\<in>{0..<8}. rk t ! i ! j < 16 \<and> drop_bit 4 (rk t ! i ! j) = 0)"
    by blast
  then have a: "\<exists>t. New kat_key128 = Inr (Inr t) \<and> rk t ! 1 ! 0 < 16 \<and> rk t ! 36 ! 7 < 16"
    by (intro exI [of _ t]) simp
  from n k obtain wk0 where w: "unpack 32 kat_key128 = Inr wk0"
    "\<forall>k\<in>{1..36}. \<exists>t wk. for_up 1 k round128 (zero_cipher, wk0) = Inr (t, wk)
                      \<and> length wk = 32 \<and> (\<forall>n\<in>{0..<32}. wk ! n < 16)"
    by blast
  from w(2) have "\<exists>t wk. for_up 1 36 round128 (zero_cipher, wk0) = Inr (t, wk)
                      \<and> length wk = 32 \<and> (\<forall>n\<in>{0..<32}. wk ! n < 16)"
    by simp
  then have b: "\<exists>wk0 t wk. unpack 32 kat_key128 = Inr wk0
         \<and> for_up 1 36 round128 (zero_cipher, wk0) = Inr (t, wk) \<and> wk ! 31 < 16"
    using w(1) by auto
  have h: "length kat_key80 = 10" by (simp add: kat_key80_def)
  then have h': "length kat_key80 = 10 \<or> length kat_key80 = 16" by simp
  note m = nibble_invariant [OF h']
  from m obtain t' where "New kat_key80 = Inr (Inr t')"
    "\<forall>i\<in>{1..36}. length (rk t' ! i) = 8
                  \<and> (\<forall>j\<in>{0..<8}. rk t' ! i ! j < 16 \<and> drop_bit 4 (rk t' ! i ! j) = 0)"
    by blast
  then have c: "\<exists>t. New kat_key80 = Inr (Inr t) \<and> rk t ! 1 ! 0 < 16 \<and> rk t ! 36 ! 7 < 16"
    by (intro exI [of _ t']) simp
  from m h obtain wk1 where v: "unpack 20 kat_key80 = Inr wk1"
    "\<forall>k\<in>{1..36}. \<exists>t wk. for_up 1 k round80 (zero_cipher, wk1) = Inr (t, wk)
                      \<and> length wk = 20 \<and> (\<forall>n\<in>{0..<20}. wk ! n < 16)"
    by blast
  from v(2) have "\<exists>t wk. for_up 1 36 round80 (zero_cipher, wk1) = Inr (t, wk)
                      \<and> length wk = 20 \<and> (\<forall>n\<in>{0..<20}. wk ! n < 16)"
    by simp
  then have d: "\<exists>wk0 t wk. unpack 20 kat_key80 = Inr wk0
         \<and> for_up 1 36 round80 (zero_cipher, wk0) = Inr (t, wk) \<and> wk ! 19 < 16"
    using v(1) by auto
  from k' a b h' c d show ?thesis by blast
qed

subsection \<open>The reference vectors\<close>

lemma New_kat80: "New kat_key80 = Inr (Inr \<lparr>rk = kat_rk80\<rparr>)"
  by code_simp

lemma New_kat128: "New kat_key128 = Inr (Inr \<lparr>rk = kat_rk128\<rparr>)"
  by code_simp

lemma Encrypt_kat80: "Encrypt \<lparr>rk = kat_rk80\<rparr> (replicate 8 0) kat_plain = Inr kat_cipher80"
  by code_simp

lemma Encrypt_kat128: "Encrypt \<lparr>rk = kat_rk128\<rparr> (replicate 8 0) kat_plain = Inr kat_cipher128"
  by code_simp

lemma Decrypt_kat80: "Decrypt \<lparr>rk = kat_rk80\<rparr> (replicate 8 0) kat_cipher80 = Inr kat_plain"
  by code_simp

lemma Encrypt_any_dst:
  assumes "valid_rk (rk t)" "length src = 8" "length dst = 8" "length dst' = 8"
    and "Encrypt t dst' src = Inr c"
  shows "Encrypt t dst src = Inr c"
  using Encrypt_block(1) [OF assms(1,2), of dst] Encrypt_block(1) [OF assms(1,2), of dst'] assms(3,4,5)
  by simp

text \<open>
  C1. The known-answer vectors: with the instance that \<open>New\<close> returns for the 10-byte
  key \<open>00 11 22 33 44 55 66 77 88 99\<close>, encrypting \<open>01 23 45 67 89 AB CD EF\<close> gives
  \<open>7C 1F 0F 80 B1 DF 9C 28\<close>; with the instance for the 16-byte key
  \<open>00 11 .. EE FF\<close> it gives \<open>97 9F F9 B3 79 B5 A9 B8\<close>. The destination is any
  8-byte buffer.
\<close>

theorem known_answer_vectors:
  assumes "length dst = 8"
  shows "(\<exists>t. New [0x00, 0x11, 0x22, 0x33, 0x44, 0x55, 0x66, 0x77, 0x88, 0x99] = Inr (Inr t)
           \<and> Encrypt t dst [0x01, 0x23, 0x45, 0x67, 0x89, 0xAB, 0xCD, 0xEF]
               = Inr [0x7C, 0x1F, 0x0F, 0x80, 0xB1, 0xDF, 0x9C, 0x28])
       \<and> (\<exists>t. New [0x00, 0x11, 0x22, 0x33, 0x44, 0x55, 0x66, 0x77,
                    0x88, 0x99, 0xAA, 0xBB, 0xCC, 0xDD, 0xEE, 0xFF] = Inr (Inr t)
           \<and> Encrypt t dst [0x01, 0x23, 0x45, 0x67, 0x89, 0xAB, 0xCD, 0xEF]
               = Inr [0x97, 0x9F, 0xF9, 0xB3, 0x79, 0xB5, 0xA9, 0xB8])"
proof -
  have p: "length kat_plain = 8" by (simp add: kat_plain_def)
  have z: "length (replicate 8 (0 :: byte)) = 8" by simp
  have v80: "valid_rk (rk \<lparr>rk = kat_rk80\<rparr>)"
    using New_valid [OF New_kat80] by simp
  have v128: "valid_rk (rk \<lparr>rk = kat_rk128\<rparr>)"
    using New_valid [OF New_kat128] by simp
  have e80: "Encrypt \<lparr>rk = kat_rk80\<rparr> dst kat_plain = Inr kat_cipher80"
    by (rule Encrypt_any_dst [OF v80 p assms z Encrypt_kat80])
  have e128: "Encrypt \<lparr>rk = kat_rk128\<rparr> dst kat_plain = Inr kat_cipher128"
    by (rule Encrypt_any_dst [OF v128 p assms z Encrypt_kat128])
  show ?thesis
    using New_kat80 New_kat128 e80 e128
    unfolding kat_key80_def kat_key128_def kat_plain_def kat_cipher80_def kat_cipher128_def
    by blast
qed

theorem known_answer_vectors_witness:
  "length [0xFF, 0xFF, 0xFF, 0xFF, 0xFF, 0xFF, 0xFF, 0xFF :: byte] = 8
   \<and> (\<exists>t. New [0x00, 0x11, 0x22, 0x33, 0x44, 0x55, 0x66, 0x77, 0x88, 0x99] = Inr (Inr t)
           \<and> Encrypt t [0xFF, 0xFF, 0xFF, 0xFF, 0xFF, 0xFF, 0xFF, 0xFF]
                [0x01, 0x23, 0x45, 0x67, 0x89, 0xAB, 0xCD, 0xEF]
               = Inr [0x7C, 0x1F, 0x0F, 0x80, 0xB1, 0xDF, 0x9C, 0x28])
   \<and> (\<exists>t. New [0x00, 0x11, 0x22, 0x33, 0x44, 0x55, 0x66, 0x77,
                    0x88, 0x99, 0xAA, 0xBB, 0xCC, 0xDD, 0xEE, 0xFF] = Inr (Inr t)
           \<and> Encrypt t [0xFF, 0xFF, 0xFF, 0xFF, 0xFF, 0xFF, 0xFF, 0xFF]
                [0x01, 0x23, 0x45, 0x67, 0x89, 0xAB, 0xCD, 0xEF]
               = Inr [0x97, 0x9F, 0xF9, 0xB3, 0x79, 0xB5, 0xA9, 0xB8])"
proof -
  have l: "length [0xFF, 0xFF, 0xFF, 0xFF, 0xFF, 0xFF, 0xFF, 0xFF :: byte] = 8" by simp
  from known_answer_vectors [OF l] l show ?thesis by blast
qed

subsection \<open>Sources shorter than a block\<close>

lemma spec_unpack_append: "spec_unpack (xs @ ys) = spec_unpack xs @ spec_unpack ys"
  by (simp add: spec_unpack_def)

lemma spec_unpack_zeros: "spec_unpack (replicate n 0) = replicate (2 * n) 0"
  by (induction n) (simp_all add: spec_unpack_def)

lemma spec_unpack_padded:
  "length src \<le> 8 \<Longrightarrow>
     spec_unpack (src @ replicate (8 - length src) 0) = spec_unpack src @ replicate (16 - 2 * length src) 0"
  by (simp add: spec_unpack_append spec_unpack_zeros diff_mult_distrib2)

lemma Encrypt_short_kat128:
  "Encrypt \<lparr>rk = kat_rk128\<rparr> (replicate 10 0xEE) [0x01, 0x23, 0x45, 0, 0, 0, 0, 0]
     = Inr [0x2C, 0x3A, 0x79, 0x2E, 0x0E, 0xE5, 0x0A, 0x50, 0xEE, 0xEE]"
  by code_simp

lemma Decrypt_short_kat128:
  "Decrypt \<lparr>rk = kat_rk128\<rparr> (replicate 10 0xEE) [0x01, 0x23, 0x45, 0, 0, 0, 0, 0]
     = Inr [0x6E, 0x36, 0x3B, 0xB3, 0xA1, 0x52, 0x10, 0x52, 0xEE, 0xEE]"
  by code_simp

text \<open>
  C10. A source shorter than 8 bytes, with a destination of at least 8 bytes: the
  unpacking loop fills the nibbles of the bytes present and leaves the others zero, as
  it does for the source padded with zero bytes to 8 bytes. \<open>Encrypt\<close> and \<open>Decrypt\<close>
  return without a panic; the first 8 bytes of the destination become the block that
  the specification's encryption (decryption) gives for the zero-padded source, the
  bytes after the eighth stay as they were, and the call returns what the same call on
  the zero-padded source returns.
\<close>

theorem short_source_zero_padded:
  assumes "New key = Inr (Inr t)" and "length src < 8" and "8 \<le> length dst"
  shows "unpack 16 src = Inr (spec_unpack src @ replicate (16 - 2 * length src) 0)
       \<and> unpack 16 src = unpack 16 (src @ replicate (8 - length src) 0)
       \<and> Encrypt t dst src
           = Inr (spec_encrypt (rk t) (src @ replicate (8 - length src) 0) @ drop 8 dst)
       \<and> length (spec_encrypt (rk t) (src @ replicate (8 - length src) 0)) = 8
       \<and> Encrypt t dst src = Encrypt t dst (src @ replicate (8 - length src) 0)
       \<and> Decrypt t dst src
           = Inr (spec_decrypt (rk t) (src @ replicate (8 - length src) 0) @ drop 8 dst)
       \<and> length (spec_decrypt (rk t) (src @ replicate (8 - length src) 0)) = 8
       \<and> Decrypt t dst src = Decrypt t dst (src @ replicate (8 - length src) 0)"
proof -
  have v: "valid_rk (rk t)" using New_valid [OF assms(1)] by simp
  have le: "length src \<le> 8" using assms(2) by simp
  let ?pad = "src @ replicate (8 - length src) 0"
  have lp: "length ?pad = 8" using le by simp
  have x: "spec_unpack src @ replicate (16 - 2 * length src) 0 = spec_unpack ?pad"
    using le by (simp add: spec_unpack_padded)
  have u1: "unpack 16 src = Inr (spec_unpack src @ replicate (16 - 2 * length src) 0)"
    by (rule unpack_ok) (use le in simp)
  have "unpack 16 ?pad = Inr (spec_unpack ?pad)"
    by (rule unpack_exact) (use lp in simp)
  then have u2: "unpack 16 src = unpack 16 ?pad"
    using u1 x by simp
  have e2: "Encrypt t dst ?pad = Inr (spec_encrypt (rk t) ?pad @ drop 8 dst)"
    by (rule Encrypt_block(1) [OF v lp assms(3)])
  have "Encrypt t dst src = Inr (spec_pack (enc_rounds 36 (rk t) (spec_unpack ?pad)) @ drop 8 dst)"
    using Encrypt_ok(1) [OF v le assms(3)] unfolding x .
  then have e1: "Encrypt t dst src = Inr (spec_encrypt (rk t) ?pad @ drop 8 dst)"
    by (simp only: spec_encrypt_def)
  have d2: "Decrypt t dst ?pad = Inr (spec_decrypt (rk t) ?pad @ drop 8 dst)"
    by (rule Decrypt_block(1) [OF v lp assms(3)])
  have "Decrypt t dst src = Inr (spec_pack (dec_rounds 36 (rk t) (spec_unpack ?pad)) @ drop 8 dst)"
    using Decrypt_ok(1) [OF v le assms(3)] unfolding x .
  then have d1: "Decrypt t dst src = Inr (spec_decrypt (rk t) ?pad @ drop 8 dst)"
    by (simp only: spec_decrypt_def)
  have e3: "Encrypt t dst src = Encrypt t dst ?pad" using e1 e2 by simp
  have d3: "Decrypt t dst src = Decrypt t dst ?pad" using d1 d2 by simp
  from u1 u2 e1 e3 d1 d3 length_spec_encrypt [of "rk t" ?pad] length_spec_decrypt [of "rk t" ?pad]
  show ?thesis by blast
qed

theorem short_source_zero_padded_witness:
  "New kat_key128 = Inr (Inr \<lparr>rk = kat_rk128\<rparr>)
   \<and> length [0x01, 0x23, 0x45 :: byte] < 8 \<and> 8 \<le> length (replicate 10 (0xEE :: byte))
   \<and> Encrypt \<lparr>rk = kat_rk128\<rparr> (replicate 10 0xEE) [0x01, 0x23, 0x45]
       = Inr [0x2C, 0x3A, 0x79, 0x2E, 0x0E, 0xE5, 0x0A, 0x50, 0xEE, 0xEE]
   \<and> Encrypt \<lparr>rk = kat_rk128\<rparr> (replicate 10 0xEE) [0x01, 0x23, 0x45]
       = Inr (spec_encrypt kat_rk128 [0x01, 0x23, 0x45, 0, 0, 0, 0, 0] @ [0xEE, 0xEE])
   \<and> Decrypt \<lparr>rk = kat_rk128\<rparr> (replicate 10 0xEE) [0x01, 0x23, 0x45]
       = Inr [0x6E, 0x36, 0x3B, 0xB3, 0xA1, 0x52, 0x10, 0x52, 0xEE, 0xEE]
   \<and> Decrypt \<lparr>rk = kat_rk128\<rparr> (replicate 10 0xEE) [0x01, 0x23, 0x45]
       = Inr (spec_decrypt kat_rk128 [0x01, 0x23, 0x45, 0, 0, 0, 0, 0] @ [0xEE, 0xEE])"
proof -
  have s: "length [0x01, 0x23, 0x45 :: byte] < 8" by simp
  have d: "8 \<le> length (replicate 10 (0xEE :: byte))" by simp
  have p: "[0x01, 0x23, 0x45] @ replicate (8 - length [0x01, 0x23, 0x45 :: byte]) (0 :: byte)
           = [0x01, 0x23, 0x45, 0, 0, 0, 0, 0]"
    by (simp add: numeral_eq_Suc)
  have r: "drop 8 (replicate 10 (0xEE :: byte)) = [0xEE, 0xEE]"
    by (simp add: numeral_eq_Suc)
  note w = short_source_zero_padded [OF New_kat128 s d, unfolded p r twineCipher.select_convs]
  from w have e': "Encrypt \<lparr>rk = kat_rk128\<rparr> (replicate 10 0xEE) [0x01, 0x23, 0x45]
       = Inr (spec_encrypt kat_rk128 [0x01, 0x23, 0x45, 0, 0, 0, 0, 0] @ [0xEE, 0xEE])"
    by blast
  from w have "Encrypt \<lparr>rk = kat_rk128\<rparr> (replicate 10 0xEE) [0x01, 0x23, 0x45]
       = Encrypt \<lparr>rk = kat_rk128\<rparr> (replicate 10 0xEE) [0x01, 0x23, 0x45, 0, 0, 0, 0, 0]"
    by blast
  then have e: "Encrypt \<lparr>rk = kat_rk128\<rparr> (replicate 10 0xEE) [0x01, 0x23, 0x45]
       = Inr [0x2C, 0x3A, 0x79, 0x2E, 0x0E, 0xE5, 0x0A, 0x50, 0xEE, 0xEE]"
    by (simp only: Encrypt_short_kat128)
  from w have c': "Decrypt \<lparr>rk = kat_rk128\<rparr> (replicate 10 0xEE) [0x01, 0x23, 0x45]
       = Inr (spec_decrypt kat_rk128 [0x01, 0x23, 0x45, 0, 0, 0, 0, 0] @ [0xEE, 0xEE])"
    by blast
  from w have "Decrypt \<lparr>rk = kat_rk128\<rparr> (replicate 10 0xEE) [0x01, 0x23, 0x45]
       = Decrypt \<lparr>rk = kat_rk128\<rparr> (replicate 10 0xEE) [0x01, 0x23, 0x45, 0, 0, 0, 0, 0]"
    by blast
  then have c: "Decrypt \<lparr>rk = kat_rk128\<rparr> (replicate 10 0xEE) [0x01, 0x23, 0x45]
       = Inr [0x6E, 0x36, 0x3B, 0xB3, 0xA1, 0x52, 0x10, 0x52, 0xEE, 0xEE]"
    by (simp only: Decrypt_short_kat128)
  from New_kat128 s d e e' c c' show ?thesis by blast
qed

end
